theory Spec2Isabelle
  imports Main "HOL-Library.AList" "HOL-Library.Char_ord" "HOL-Library.List_Lexorder"
begin

section \<open>Nested records and flat records\<close>

text \<open>
  A record read from the source is native Python data: a \<^verbatim>\<open>dict\<close> with string keys,
  a \<^verbatim>\<open>list\<close>, or anything else. \<^verbatim>\<open>flatten_json\<close> tests \<^verbatim>\<open>isinstance(data, Mapping)\<close>,
  then \<^verbatim>\<open>isinstance(data, list)\<close>, and treats every other value as a leaf, so the leaves
  are kept as scalars that the code never inspects.

  A Python \<^verbatim>\<open>dict\<close> keeps its entries in insertion order and holds each key once. It is
  modelled as an association list; \<open>Dict\<close> carries the entries in iteration order.
\<close>

datatype scalar = SNull | SBool bool | SNum int | SStr string

datatype json = Scalar scalar | Dict "(string \<times> json) list" | Arr "json list"

type_synonym flat = "(string \<times> scalar) list"

text \<open>\<^verbatim>\<open>d[k] = v\<close>: an existing key keeps its position and takes the new value, a new key
  is appended. This is \<^const>\<open>AList.update\<close>.\<close>

definition dict_setitem :: "string \<Rightarrow> scalar \<Rightarrow> flat \<Rightarrow> flat" where
  "dict_setitem k v d = AList.update k v d"

text \<open>\<^verbatim>\<open>d.update(other)\<close>: \<^verbatim>\<open>d[k] = v\<close> for every entry of \<^verbatim>\<open>other\<close>, in its order.\<close>

definition dict_update :: "flat \<Rightarrow> flat \<Rightarrow> flat" where
  "dict_update d other = fold (\<lambda>(k, v) acc. dict_setitem k v acc) other d"

text \<open>\<^verbatim>\<open>d.get(k)\<close>: the value, or \<^verbatim>\<open>None\<close> when the key is missing.\<close>

definition dict_get :: "flat \<Rightarrow> string \<Rightarrow> scalar" where
  "dict_get d k = (case map_of d k of None \<Rightarrow> SNull | Some v \<Rightarrow> v)"

text \<open>\<^verbatim>\<open>str(idx)\<close> for a list index: the decimal digits of a natural number.\<close>

definition digit_char :: "nat \<Rightarrow> char" where
  "digit_char d = ''0123456789'' ! d"

function str_nat :: "nat \<Rightarrow> string" where
  "str_nat n = (if n < 10 then [digit_char n] else str_nat (n div 10) @ [digit_char (n mod 10)])"
  by pat_completeness auto
termination
  by (relation "measure id") auto

declare str_nat.simps [simp del]

section \<open>The flattener (\<^verbatim>\<open>utils/flatten.py\<close>)\<close>

text \<open>
  \<^verbatim>\<open>new_key = f"{parent_key}{sep}{key}" if parent_key else key\<close>: the test is on the prefix
  being the empty string, not on being at the root.
\<close>

definition new_key :: "string \<Rightarrow> string \<Rightarrow> string \<Rightarrow> string" where
  "new_key parent_key sep key = (if parent_key \<noteq> [] then parent_key @ sep @ key else key)"

text \<open>
  \<open>flatten_json data parent_key sep\<close> is the function of the source. \<open>flatten_items\<close> is its
  loop over \<^verbatim>\<open>data.items()\<close> and \<open>flatten_elems\<close> its loop over \<^verbatim>\<open>enumerate(data)\<close>; both
  carry the local dictionary \<^verbatim>\<open>items\<close>, which starts empty in every call.
\<close>

function flatten_json :: "json \<Rightarrow> string \<Rightarrow> string \<Rightarrow> flat"
  and flatten_items :: "(string \<times> json) list \<Rightarrow> string \<Rightarrow> string \<Rightarrow> flat \<Rightarrow> flat"
  and flatten_elems :: "json list \<Rightarrow> nat \<Rightarrow> string \<Rightarrow> string \<Rightarrow> flat \<Rightarrow> flat"
where
  "flatten_json (Dict kvs) parent_key sep = flatten_items kvs parent_key sep []"
| "flatten_json (Arr xs) parent_key sep = flatten_elems xs 0 parent_key sep []"
| "flatten_json (Scalar v) parent_key sep = dict_setitem parent_key v []"
| "flatten_items [] parent_key sep items = items"
| "flatten_items ((key, val) # rest) parent_key sep items =
     flatten_items rest parent_key sep
       (dict_update items (flatten_json val (new_key parent_key sep key) sep))"
| "flatten_elems [] idx parent_key sep items = items"
| "flatten_elems (val # rest) idx parent_key sep items =
     flatten_elems rest (Suc idx) parent_key sep
       (dict_update items (flatten_json val (new_key parent_key sep (str_nat idx)) sep))"
  by pat_completeness auto
termination
  by (relation "measure (\<lambda>x. case x of
        Inl (d, _) \<Rightarrow> 2 * size d
      | Inr (Inl (kvs, _)) \<Rightarrow> 2 * size_list (size_prod (\<lambda>_. 0) size) kvs + 1
      | Inr (Inr (xs, _)) \<Rightarrow> 2 * size_list size xs + 1)") auto

text \<open>\<^verbatim>\<open>infer_columns\<close>: flatten the sample with the default arguments and sort the keys.\<close>

definition infer_columns :: "json \<Rightarrow> string list" where
  "infer_columns sample_record = sort (map fst (flatten_json sample_record [] ''_''))"

section \<open>Leaves and their flat keys\<close>

text \<open>
  \<open>count_leaves\<close> counts the scalar leaves of a nested record; an empty mapping or an
  empty sequence has none. \<open>leaf_keys\<close> lists, leaf by leaf and in iteration order, the
  key under which \<^const>\<open>flatten_json\<close> stores that leaf: it follows the same recursion
  and builds the prefix with the same \<^const>\<open>new_key\<close>.
\<close>

fun count_leaves :: "json \<Rightarrow> nat"
  and count_leaves_items :: "(string \<times> json) list \<Rightarrow> nat"
  and count_leaves_elems :: "json list \<Rightarrow> nat"
where
  "count_leaves (Dict kvs) = count_leaves_items kvs"
| "count_leaves (Arr xs) = count_leaves_elems xs"
| "count_leaves (Scalar v) = 1"
| "count_leaves_items [] = 0"
| "count_leaves_items ((key, val) # rest) = count_leaves val + count_leaves_items rest"
| "count_leaves_elems [] = 0"
| "count_leaves_elems (val # rest) = count_leaves val + count_leaves_elems rest"

function leaf_keys :: "json \<Rightarrow> string \<Rightarrow> string \<Rightarrow> string list"
  and leaf_keys_items :: "(string \<times> json) list \<Rightarrow> string \<Rightarrow> string \<Rightarrow> string list"
  and leaf_keys_elems :: "json list \<Rightarrow> nat \<Rightarrow> string \<Rightarrow> string \<Rightarrow> string list"
where
  "leaf_keys (Dict kvs) parent_key sep = leaf_keys_items kvs parent_key sep"
| "leaf_keys (Arr xs) parent_key sep = leaf_keys_elems xs 0 parent_key sep"
| "leaf_keys (Scalar v) parent_key sep = [parent_key]"
| "leaf_keys_items [] parent_key sep = []"
| "leaf_keys_items ((key, val) # rest) parent_key sep =
     leaf_keys val (new_key parent_key sep key) sep @ leaf_keys_items rest parent_key sep"
| "leaf_keys_elems [] idx parent_key sep = []"
| "leaf_keys_elems (val # rest) idx parent_key sep =
     leaf_keys val (new_key parent_key sep (str_nat idx)) sep
       @ leaf_keys_elems rest (Suc idx) parent_key sep"
  by pat_completeness auto
termination
  by (relation "measure (\<lambda>x. case x of
        Inl (d, _) \<Rightarrow> 2 * size d
      | Inr (Inl (kvs, _)) \<Rightarrow> 2 * size_list (size_prod (\<lambda>_. 0) size) kvs + 1
      | Inr (Inr (xs, _)) \<Rightarrow> 2 * size_list size xs + 1)") auto

text \<open>
  A record is well keyed for a separator character when every mapping key in it is
  non-empty and does not contain that character (and no mapping repeats a key, which a
  Python \<^verbatim>\<open>dict\<close> cannot). \<open>segment\<close> reads the first path segment below a prefix back
  from a flat key, and \<open>nat_of_str\<close> reads a decimal index back.
\<close>

fun well_keyed :: "char \<Rightarrow> json \<Rightarrow> bool"
  and well_keyed_items :: "char \<Rightarrow> (string \<times> json) list \<Rightarrow> bool"
  and well_keyed_elems :: "char \<Rightarrow> json list \<Rightarrow> bool"
where
  "well_keyed c (Dict kvs) = (distinct (map fst kvs) \<and> well_keyed_items c kvs)"
| "well_keyed c (Arr xs) = well_keyed_elems c xs"
| "well_keyed c (Scalar v) = True"
| "well_keyed_items c [] = True"
| "well_keyed_items c ((key, val) # rest) =
     (key \<noteq> [] \<and> c \<notin> set key \<and> well_keyed c val \<and> well_keyed_items c rest)"
| "well_keyed_elems c [] = True"
| "well_keyed_elems c (val # rest) = (well_keyed c val \<and> well_keyed_elems c rest)"

definition digit_val :: "char \<Rightarrow> nat" where
  "digit_val ch = of_char ch - 48"

definition nat_of_str :: "string \<Rightarrow> nat" where
  "nat_of_str s = foldl (\<lambda>a ch. 10 * a + digit_val ch) 0 s"

definition segment :: "char \<Rightarrow> string \<Rightarrow> string \<Rightarrow> string" where
  "segment c parent_key k =
     takeWhile (\<lambda>x. x \<noteq> c) (if parent_key = [] then k else drop (Suc (length parent_key)) k)"

section \<open>The flattener with its dictionaries in a store\<close>

text \<open>
  In the Python, a dictionary is an object: \<^verbatim>\<open>items = {}\<close> creates a new one in every
  call, \<^verbatim>\<open>items.update(...)\<close> and \<^verbatim>\<open>items[parent_key] = data\<close> change it in place, and the
  call returns a reference to it. Here the dictionaries live in a store, a list of them
  addressed by position; a call takes the store it is started in and returns the address of
  its result with the store it leaves behind. The store a call starts in may hold any
  dictionaries, among them the results of earlier calls.

  \<open>flatten_json_st\<close> is the function body statement by statement: create \<^verbatim>\<open>items\<close>, run
  the loop over \<^verbatim>\<open>data.items()\<close> (\<open>flatten_items_st\<close>) or over \<^verbatim>\<open>enumerate(data)\<close>
  (\<open>flatten_elems_st\<close>) or store the leaf, return \<^verbatim>\<open>items\<close>. The record \<^verbatim>\<open>data\<close> is only
  read; a Python \<^verbatim>\<open>dict\<close> iterates in insertion order, which is the order of the list in
  \<open>Dict\<close>.
\<close>

type_synonym store = "flat list"

definition new_dict :: "store \<Rightarrow> nat \<times> store" where
  "new_dict st = (length st, st @ [[]])"

definition store_setitem :: "nat \<Rightarrow> string \<Rightarrow> scalar \<Rightarrow> store \<Rightarrow> store" where
  "store_setitem a k v st = st[a := dict_setitem k v (st ! a)]"

definition store_update :: "nat \<Rightarrow> nat \<Rightarrow> store \<Rightarrow> store" where
  "store_update a b st = st[a := dict_update (st ! a) (st ! b)]"

function flatten_json_st :: "json \<Rightarrow> string \<Rightarrow> string \<Rightarrow> store \<Rightarrow> nat \<times> store"
  and flatten_items_st :: "(string \<times> json) list \<Rightarrow> string \<Rightarrow> string \<Rightarrow> nat \<Rightarrow> store \<Rightarrow> store"
  and flatten_elems_st :: "json list \<Rightarrow> nat \<Rightarrow> string \<Rightarrow> string \<Rightarrow> nat \<Rightarrow> store \<Rightarrow> store"
where
  "flatten_json_st (Dict kvs) parent_key sep st =
     (let (items, st) = new_dict st in (items, flatten_items_st kvs parent_key sep items st))"
| "flatten_json_st (Arr xs) parent_key sep st =
     (let (items, st) = new_dict st in (items, flatten_elems_st xs 0 parent_key sep items st))"
| "flatten_json_st (Scalar v) parent_key sep st =
     (let (items, st) = new_dict st in (items, store_setitem items parent_key v st))"
| "flatten_items_st [] parent_key sep items st = st"
| "flatten_items_st ((key, val) # rest) parent_key sep items st =
     (let (sub, st) = flatten_json_st val (new_key parent_key sep key) sep st
      in flatten_items_st rest parent_key sep items (store_update items sub st))"
| "flatten_elems_st [] idx parent_key sep items st = st"
| "flatten_elems_st (val # rest) idx parent_key sep items st =
     (let (sub, st) = flatten_json_st val (new_key parent_key sep (str_nat idx)) sep st
      in flatten_elems_st rest (Suc idx) parent_key sep items (store_update items sub st))"
  by pat_completeness auto
termination
  by (relation "measure (\<lambda>x. case x of
        Inl (d, _) \<Rightarrow> 2 * size d
      | Inr (Inl (kvs, _)) \<Rightarrow> 2 * size_list (size_prod (\<lambda>_. 0) size) kvs + 1
      | Inr (Inr (xs, _)) \<Rightarrow> 2 * size_list size xs + 1)") auto

section \<open>Module globals and SQL statements (\<^verbatim>\<open>lambda_function.py\<close>)\<close>

text \<open>
  The module reads its configuration once, at import, into globals.
  \<^verbatim>\<open>os.getenv\<close> returns \<^verbatim>\<open>None\<close> for an unset variable, so the string globals are
  options; \<open>BATCH_SIZE\<close> holds the value of \<^verbatim>\<open>int(os.getenv("BATCH_SIZE", "500"))\<close>.
  These nine are all the configuration the module has.
\<close>

record globals =
  DDB_TABLE :: "string option"
  SNOW_SECRET :: "string option"
  SNOW_ACCOUNT :: "string option"
  SNOW_ROLE :: "string option"
  SNOW_WAREHOUSE :: "string option"
  SNOW_DATABASE :: "string option"
  SNOW_SCHEMA :: "string option"
  SNOW_TABLE :: "string option"
  BATCH_SIZE :: int

text \<open>A global spliced into an f-string: \<^verbatim>\<open>None\<close> is written as \<^verbatim>\<open>None\<close>.\<close>

definition fmt :: "string option \<Rightarrow> string" where
  "fmt x = (case x of None \<Rightarrow> ''None'' | Some s \<Rightarrow> s)"

definition table_name :: "globals \<Rightarrow> string" where
  "table_name g = fmt (SNOW_DATABASE g) @ ''.'' @ fmt (SNOW_SCHEMA g) @ ''.'' @ fmt (SNOW_TABLE g)"

text \<open>\<^verbatim>\<open>sep.join(xs)\<close>\<close>

fun join :: "string \<Rightarrow> string list \<Rightarrow> string" where
  "join sep [] = []"
| "join sep [x] = x"
| "join sep (x # y # ys) = x @ sep @ join sep (y # ys)"

text \<open>
  The three statement texts the module builds differ only in the table name and the column
  lists spliced into them, so a statement is kept as those parts; \<open>sql_text\<close> puts the
  text of the source back together. In \<open>merge_stmt\<close>, \<open>using_cols\<close> are the columns of
  the one-row \<^verbatim>\<open>SELECT ... S\<close>, \<open>on_col\<close> is the column of \<^verbatim>\<open>ON T.c = S.c\<close>,
  \<open>update_cols\<close> the columns of \<^verbatim>\<open>UPDATE SET\<close>, and \<open>insert_cols\<close> the columns of
  \<^verbatim>\<open>INSERT (...) VALUES (S....)\<close>.
\<close>

record merge_stmt =
  target :: string
  using_cols :: "string list"
  on_col :: string
  update_cols :: "string list"
  insert_cols :: "string list"

datatype sql =
    CreateTableIfNotExists string
  | InsertInto string "string list"
  | MergeInto merge_stmt

fun sql_text :: "sql \<Rightarrow> string" where
  "sql_text (CreateTableIfNotExists t) =
     [CHR 0x0A] @ ''CREATE TABLE IF NOT EXISTS '' @ t @ '' ('' @ [CHR 0x0A] @
     ''  -- we'' @ [CHR 0x27] @ ''ll infer columns dynamically on first run'' @ [CHR 0x0A] @
     '');'' @ [CHR 0x0A]"
| "sql_text (InsertInto t columns) =
     ''INSERT INTO '' @ t @ '' ('' @ join '', '' columns @ '') VALUES ('' @
     join '', '' (map (\<lambda>col. ''%('' @ col @ '')s'') columns) @ '')''"
| "sql_text (MergeInto m) =
     ''MERGE INTO '' @ target m @ '' T '' @
     ''USING (SELECT '' @ join '', '' (map (\<lambda>col. ''%('' @ col @ '')s AS '' @ col) (using_cols m)) @
     '') S ON T.'' @ on_col m @ '' = S.'' @ on_col m @ '' '' @
     ''WHEN MATCHED THEN UPDATE SET '' @
     join '', '' (map (\<lambda>col. ''T.'' @ col @ ''=S.'' @ col) (update_cols m)) @ '' '' @
     ''WHEN NOT MATCHED THEN INSERT ('' @ join '', '' (insert_cols m) @ '') '' @
     ''VALUES ('' @ join '', '' (map (\<lambda>c. ''S.'' @ c) (insert_cols m)) @ '')''"

text \<open>\<^verbatim>\<open>insert_sql\<close> of \<^verbatim>\<open>load_truncate\<close> and \<^verbatim>\<open>merge_sql\<close> of \<^verbatim>\<open>load_upsert\<close>. The merge
  names its key column by the literal \<^verbatim>\<open>"uuid"\<close>.\<close>

definition insert_sql :: "globals \<Rightarrow> string list \<Rightarrow> sql" where
  "insert_sql g columns = InsertInto (table_name g) columns"

definition merge_sql_parts :: "globals \<Rightarrow> string list \<Rightarrow> merge_stmt" where
  "merge_sql_parts g columns =
     \<lparr> target = table_name g,
       using_cols = columns,
       on_col = ''uuid'',
       update_cols = filter (\<lambda>col. col \<noteq> ''uuid'') columns,
       insert_cols = columns \<rparr>"

definition merge_sql :: "globals \<Rightarrow> string list \<Rightarrow> sql" where
  "merge_sql g columns = MergeInto (merge_sql_parts g columns)"

section \<open>The load functions\<close>

text \<open>
  What a run does to the outside world is the sequence of calls it makes on the cursor,
  the connection and the logger. \<open>Execute sql params\<close> is \<^verbatim>\<open>cur.execute(sql, params)\<close>
  (\<^verbatim>\<open>ensure_table\<close> passes no parameters), \<open>ExecuteMany sql batch\<close> is
  \<^verbatim>\<open>cur.executemany(sql, batch)\<close>.
\<close>

datatype event =
    Execute sql flat
  | ExecuteMany sql "flat list"
  | Commit
  | CursorClose
  | ConnectionClose
  | LogWarning string

text \<open>
  \<^verbatim>\<open>scan_dynamodb()\<close> yields every item of the source table. The program only reads the
  table, so each scan of a run yields the same items, in the same order.
\<close>

definition scan_dynamodb :: "json list \<Rightarrow> json list" where
  "scan_dynamodb ddb = ddb"

definition ensure_table :: "globals \<Rightarrow> event list" where
  "ensure_table g = [Execute (CreateTableIfNotExists (table_name g)) []]"

text \<open>The row of a record: \<^verbatim>\<open>{col: flat.get(col) for col in columns}\<close>.\<close>

definition project :: "flat \<Rightarrow> string list \<Rightarrow> flat" where
  "project flat columns = fold (\<lambda>col row. dict_setitem col (dict_get flat col) row) columns []"

text \<open>
  The batch loop of \<^verbatim>\<open>load_truncate\<close>. The state is the calls made so far and the list
  \<^verbatim>\<open>batch\<close>; a full batch is written, committed and cleared.
\<close>

fun batch_loop ::
  "globals \<Rightarrow> string list \<Rightarrow> json list \<Rightarrow> event list \<times> flat list \<Rightarrow> event list \<times> flat list"
where
  "batch_loop g columns [] st = st"
| "batch_loop g columns (rec # recs) (evs, batch) =
     (let flat = flatten_json rec [] ''_'';
          row = project flat columns;
          batch = batch @ [row]
      in if int (length batch) \<ge> BATCH_SIZE g
         then batch_loop g columns recs
                (evs @ [ExecuteMany (insert_sql g columns) batch, Commit], [])
         else batch_loop g columns recs (evs, batch))"

text \<open>\<^verbatim>\<open>if batch: cur.executemany(insert_sql, batch); conn.commit()\<close>\<close>

definition final_flush :: "globals \<Rightarrow> string list \<Rightarrow> flat list \<Rightarrow> event list" where
  "final_flush g columns batch =
     (if batch \<noteq> [] then [ExecuteMany (insert_sql g columns) batch, Commit] else [])"

definition load_truncate :: "globals \<Rightarrow> json list \<Rightarrow> event list" where
  "load_truncate g ddb =
     ensure_table g @
     (case scan_dynamodb ddb of
        [] \<Rightarrow> [LogWarning ''No items in DynamoDB table.'']
      | first_rec # _ \<Rightarrow>
          (let columns = infer_columns first_rec;
               (evs, batch) = batch_loop g columns ([first_rec] @ scan_dynamodb ddb) ([], [])
           in evs @ final_flush g columns batch @ [CursorClose]))"

definition load_upsert :: "globals \<Rightarrow> json list \<Rightarrow> event list" where
  "load_upsert g ddb =
     ensure_table g @
     (case scan_dynamodb ddb of
        [] \<Rightarrow> [LogWarning ''No items in DynamoDB table.'']
      | first_rec # _ \<Rightarrow>
          (let columns = infer_columns first_rec
           in map (\<lambda>rec. Execute (merge_sql g columns)
                            (project (flatten_json rec [] ''_'') columns))
                  (scan_dynamodb ddb)
              @ [Commit, CursorClose]))"

text \<open>
  The handlers. Both load functions return \<^verbatim>\<open>None\<close> on every path, and the handler
  returns its fixed response after the call; \<^verbatim>\<open>finally\<close> closes the connection.
\<close>

record response =
  statusCode :: int
  body :: string

definition truncate_load_handler :: "globals \<Rightarrow> json list \<Rightarrow> response \<times> event list" where
  "truncate_load_handler g ddb =
     (\<lparr> statusCode = 200, body = ''Full load succeeded'' \<rparr>,
      load_truncate g ddb @ [ConnectionClose])"

definition incremental_upsert_handler :: "globals \<Rightarrow> json list \<Rightarrow> response \<times> event list" where
  "incremental_upsert_handler g ddb =
     (\<lparr> statusCode = 200, body = ''Upsert succeeded'' \<rparr>,
      load_upsert g ddb @ [ConnectionClose])"

text \<open>Observations on a run: the batches handed to \<^verbatim>\<open>executemany\<close>, in order, and the
  calls that write to the table (every execute but the one of \<^verbatim>\<open>ensure_table\<close>).\<close>

fun batches_written :: "event list \<Rightarrow> flat list list" where
  "batches_written [] = []"
| "batches_written (ExecuteMany q batch # evs) = batch # batches_written evs"
| "batches_written (e # evs) = batches_written evs"

fun is_write :: "event \<Rightarrow> bool" where
  "is_write (ExecuteMany q batch) = True"
| "is_write (Execute (CreateTableIfNotExists t) params) = False"
| "is_write (Execute q params) = True"
| "is_write e = False"

definition write_calls :: "event list \<Rightarrow> event list" where
  "write_calls evs = filter is_write evs"

section \<open>The destination table\<close>

text \<open>
  The destination is the one relation all three statements name. A row of it gives every
  column name a value, \<open>SNull\<close> where the row has none; the relation is the list of its
  rows. The statements act on it as SQL defines them:
  \<^item> \<^verbatim>\<open>CREATE TABLE IF NOT EXISTS\<close> leaves an existing relation as it is;
  \<^item> \<^verbatim>\<open>INSERT INTO t (cols) VALUES (params)\<close> appends one row;
  \<^item> \<^verbatim>\<open>MERGE\<close> with the one-row source \<open>S\<close> updates the listed columns of every row
    whose key equals the key of \<open>S\<close>, and inserts a row when there is none. SQL equality
    never holds of a null.
  No statement fails in this model, and commits are not tracked.
\<close>

type_synonym trow = "string \<Rightarrow> scalar"

definition bind_params :: "string list \<Rightarrow> flat \<Rightarrow> trow" where
  "bind_params cols params = (\<lambda>c. if c \<in> set cols then dict_get params c else SNull)"

definition sql_equal :: "scalar \<Rightarrow> scalar \<Rightarrow> bool" where
  "sql_equal a b = (a \<noteq> SNull \<and> b \<noteq> SNull \<and> a = b)"

definition matches :: "merge_stmt \<Rightarrow> trow \<Rightarrow> trow \<Rightarrow> bool" where
  "matches m S T = sql_equal (T (on_col m)) (S (on_col m))"

definition merge_update :: "merge_stmt \<Rightarrow> trow \<Rightarrow> trow \<Rightarrow> trow" where
  "merge_update m S T =
     (if matches m S T then (\<lambda>c. if c \<in> set (update_cols m) then S c else T c) else T)"

definition merge_insert :: "merge_stmt \<Rightarrow> trow \<Rightarrow> trow" where
  "merge_insert m S = (\<lambda>c. if c \<in> set (insert_cols m) then S c else SNull)"

definition merge_into :: "merge_stmt \<Rightarrow> trow \<Rightarrow> trow list \<Rightarrow> trow list" where
  "merge_into m S tbl =
     (if list_ex (matches m S) tbl then map (merge_update m S) tbl
      else tbl @ [merge_insert m S])"

fun exec_sql :: "sql \<Rightarrow> flat \<Rightarrow> trow list \<Rightarrow> trow list" where
  "exec_sql (CreateTableIfNotExists t) params tbl = tbl"
| "exec_sql (InsertInto t cols) params tbl = tbl @ [bind_params cols params]"
| "exec_sql (MergeInto m) params tbl = merge_into m (bind_params (using_cols m) params) tbl"

fun apply_event :: "event \<Rightarrow> trow list \<Rightarrow> trow list" where
  "apply_event (Execute q params) tbl = exec_sql q params tbl"
| "apply_event (ExecuteMany q batch) tbl = fold (exec_sql q) batch tbl"
| "apply_event e tbl = tbl"

definition sink_after :: "event list \<Rightarrow> trow list \<Rightarrow> trow list" where
  "sink_after evs tbl = fold apply_event evs tbl"

section \<open>Notation for the statements below\<close>

text \<open>The row both load functions build for a record, and the row as the sink binds it
  to the statement's columns.\<close>

definition row_of :: "string list \<Rightarrow> json \<Rightarrow> flat" where
  "row_of columns rec = project (flatten_json rec [] ''_'') columns"

definition bound_row :: "string list \<Rightarrow> json \<Rightarrow> trow" where
  "bound_row columns rec = bind_params columns (row_of columns rec)"

text \<open>Concrete inputs: a configuration with a given batch size, the configuration in
  which every name is the same string, an item with a key and one attribute, and a row of
  the destination with those two columns.\<close>

definition cfg :: "int \<Rightarrow> globals" where
  "cfg n = \<lparr> DDB_TABLE = Some ''DevNestedTable'', SNOW_SECRET = Some ''snow'',
             SNOW_ACCOUNT = Some ''acct'', SNOW_ROLE = Some ''loader'',
             SNOW_WAREHOUSE = Some ''wh'', SNOW_DATABASE = Some ''db'',
             SNOW_SCHEMA = Some ''public'', SNOW_TABLE = Some ''items'',
             BATCH_SIZE = n \<rparr>"

definition cfg_all :: "string \<Rightarrow> globals" where
  "cfg_all name = \<lparr> DDB_TABLE = Some name, SNOW_SECRET = Some name,
             SNOW_ACCOUNT = Some name, SNOW_ROLE = Some name,
             SNOW_WAREHOUSE = Some name, SNOW_DATABASE = Some name,
             SNOW_SCHEMA = Some name, SNOW_TABLE = Some name,
             BATCH_SIZE = 500 \<rparr>"

definition item :: "string \<Rightarrow> int \<Rightarrow> json" where
  "item u n = Dict [(''uuid'', Scalar (SStr u)), (''v'', Scalar (SNum n))]"

definition stored :: "string \<Rightarrow> int \<Rightarrow> trow" where
  "stored u n = (\<lambda>c. if c = ''uuid'' then SStr u else if c = ''v'' then SNum n else SNull)"

text \<open>The two columns of a row of the destination, for printing a table.\<close>

definition shown :: "trow list \<Rightarrow> (scalar \<times> scalar) list" where
  "shown tbl = map (\<lambda>T. (T ''uuid'', T ''v'')) tbl"

section \<open>The flattener at the root\<close>

text \<open>
  Claim C10. Called at the root (empty prefix) on a bare scalar or on null, the flattener
  returns the one-entry dictionary whose only key is the empty string; no error is raised,
  and the column set inferred from such a record is the single empty column name.
\<close>

theorem flatten_json_root_scalar:
  "flatten_json (Scalar v) [] sep = [([], v)] \<and>
   map fst (flatten_json (Scalar v) [] sep) = [[]] \<and>
   infer_columns (Scalar v) = [[]]"
  by (simp add: infer_columns_def dict_setitem_def)

section \<open>Leaf-count conservation\<close>

lemma dict_setitem_keys: "fst ` set (dict_setitem k v d) = insert k (fst ` set d)"
  by (simp add: dict_setitem_def dom_update)

lemma dict_setitem_distinct: "distinct (map fst d) \<Longrightarrow> distinct (map fst (dict_setitem k v d))"
  by (simp add: dict_setitem_def distinct_update)

lemma dict_update_keys: "fst ` set (dict_update d other) = fst ` set d \<union> fst ` set other"
  unfolding dict_update_def
  by (induction other arbitrary: d) (simp_all add: dict_setitem_keys split_def)

lemma dict_update_distinct: "distinct (map fst d) \<Longrightarrow> distinct (map fst (dict_update d other))"
  unfolding dict_update_def
  by (induction other arbitrary: d) (simp_all add: dict_setitem_distinct split_def)

lemma flatten_keys:
  "fst ` set (flatten_json d p s) = set (leaf_keys d p s)"
  "fst ` set (flatten_items kvs p s items) = fst ` set items \<union> set (leaf_keys_items kvs p s)"
  "fst ` set (flatten_elems xs i p s items) = fst ` set items \<union> set (leaf_keys_elems xs i p s)"
  by (induction d p s and kvs p s items and xs i p s items
      rule: flatten_json_flatten_items_flatten_elems.induct)
     (simp_all add: dict_update_keys dict_setitem_keys Un_assoc)

lemma flatten_distinct:
  "distinct (map fst (flatten_json d p s))"
  "distinct (map fst items) \<Longrightarrow> distinct (map fst (flatten_items kvs p s items))"
  "distinct (map fst items) \<Longrightarrow> distinct (map fst (flatten_elems xs i p s items))"
  by (induction d p s and kvs p s items and xs i p s items
      rule: flatten_json_flatten_items_flatten_elems.induct)
     (simp_all add: dict_update_distinct dict_setitem_distinct)

lemma leaf_keys_length:
  "length (leaf_keys d p s) = count_leaves d"
  "length (leaf_keys_items kvs p s) = count_leaves_items kvs"
  "length (leaf_keys_elems xs i p s) = count_leaves_elems xs"
  by (induction d p s and kvs p s and xs i p s rule: leaf_keys_leaf_keys_items_leaf_keys_elems.induct)
     auto

lemma flatten_length_card: "length (flatten_json d p s) = card (set (leaf_keys d p s))"
proof -
  have "length (flatten_json d p s) = length (map fst (flatten_json d p s))" by simp
  also have "\<dots> = card (set (map fst (flatten_json d p s)))"
    using flatten_distinct(1) [of d p s] by (simp only: distinct_card)
  also have "\<dots> = card (set (leaf_keys d p s))"
    using flatten_keys(1) [of d p s] by simp
  finally show ?thesis .
qed

lemma digit_cases: "d < 10 \<Longrightarrow> d \<in> {0, 1, 2, 3, 4, 5, 6, 7, 8, 9::nat}"
  by auto

lemma digit_val_digit_char: "d < 10 \<Longrightarrow> digit_val (digit_char d) = d"
  using digit_cases [of d] by (auto simp: digit_val_def digit_char_def)

lemma digit_char_digit: "d < 10 \<Longrightarrow> digit_char d \<in> set ''0123456789''"
  using digit_cases [of d] by (auto simp: digit_char_def)

lemma nat_of_str_snoc: "nat_of_str (s @ [ch]) = 10 * nat_of_str s + digit_val ch"
  by (simp add: nat_of_str_def)

lemma nat_of_str_str_nat: "nat_of_str (str_nat n) = n"
proof (induction n rule: str_nat.induct)
  case (1 n)
  show ?case
  proof (cases "n < 10")
    case True
    then show ?thesis
      by (simp add: str_nat.simps [of n] nat_of_str_def digit_val_digit_char)
  next
    case False
    with 1 have "nat_of_str (str_nat (n div 10)) = n div 10" by simp
    with False show ?thesis
      by (simp add: str_nat.simps [of n] nat_of_str_snoc digit_val_digit_char)
  qed
qed

lemma str_nat_inj:
  assumes "str_nat i = str_nat j"
  shows "i = j"
proof -
  from assms have "nat_of_str (str_nat i) = nat_of_str (str_nat j)" by (rule arg_cong)
  then show ?thesis by (simp only: nat_of_str_str_nat)
qed

lemma str_nat_digits: "set (str_nat n) \<subseteq> set ''0123456789''"
proof (induction n rule: str_nat.induct)
  case (1 n)
  show ?case
  proof (cases "n < 10")
    case True
    then show ?thesis using digit_char_digit [of n] by (simp add: str_nat.simps [of n])
  next
    case False
    with 1 have "set (str_nat (n div 10)) \<subseteq> set ''0123456789''" by simp
    moreover have "digit_char (n mod 10) \<in> set ''0123456789''"
      by (rule digit_char_digit) simp
    ultimately show ?thesis using False by (simp add: str_nat.simps [of n])
  qed
qed

lemma str_nat_nonempty: "str_nat n \<noteq> []"
  by (simp add: str_nat.simps [of n])

lemma leaf_keys_shape:
  "parent_key \<noteq> [] \<Longrightarrow> k \<in> set (leaf_keys d parent_key sep) \<Longrightarrow>
     k = parent_key \<or> (\<exists>r. k = parent_key @ sep @ r)"
  "parent_key \<noteq> [] \<Longrightarrow> k \<in> set (leaf_keys_items kvs parent_key sep) \<Longrightarrow>
     (\<exists>r. k = parent_key @ sep @ r)"
  "parent_key \<noteq> [] \<Longrightarrow> k \<in> set (leaf_keys_elems xs idx parent_key sep) \<Longrightarrow>
     (\<exists>r. k = parent_key @ sep @ r)"
proof (induction d parent_key sep and kvs parent_key sep and xs idx parent_key sep
       rule: leaf_keys_leaf_keys_items_leaf_keys_elems.induct)
  case (5 key val rest parent_key sep)
  show ?case
  proof (cases "k \<in> set (leaf_keys val (new_key parent_key sep key) sep)")
    case True
    have "new_key parent_key sep key \<noteq> []" using "5.prems"(1) by (simp add: new_key_def)
    from "5.IH"(1) [OF this True] "5.prems"(1) show ?thesis
      by (auto simp: new_key_def)
  next
    case False
    with "5.prems" have "k \<in> set (leaf_keys_items rest parent_key sep)" by simp
    from "5.IH"(2) [OF "5.prems"(1) this] show ?thesis .
  qed
next
  case (7 val rest idx parent_key sep)
  show ?case
  proof (cases "k \<in> set (leaf_keys val (new_key parent_key sep (str_nat idx)) sep)")
    case True
    have "new_key parent_key sep (str_nat idx) \<noteq> []"
      using "7.prems"(1) by (simp add: new_key_def)
    from "7.IH"(1) [OF this True] "7.prems"(1) show ?thesis
      by (auto simp: new_key_def)
  next
    case False
    with "7.prems" have "k \<in> set (leaf_keys_elems rest (Suc idx) parent_key sep)" by simp
    from "7.IH"(2) [OF "7.prems"(1) this] show ?thesis .
  qed
qed auto

lemma takeWhile_free: "c \<notin> set g \<Longrightarrow> takeWhile (\<lambda>x. x \<noteq> c) (g @ c # r) = g"
  by (induction g) auto

lemma takeWhile_free_all: "c \<notin> set g \<Longrightarrow> takeWhile (\<lambda>x. x \<noteq> c) g = g"
  by (induction g) auto

lemma segment_child:
  assumes "c \<notin> set g" "g \<noteq> []"
    and "k \<in> set (leaf_keys v (new_key parent_key [c] g) [c])"
  shows "segment c parent_key k = g"
proof -
  let ?p = "new_key parent_key [c] g"
  have "?p \<noteq> []" using assms(2) by (simp add: new_key_def)
  from leaf_keys_shape(1) [OF this assms(3)]
  consider "k = ?p" | r where "k = ?p @ [c] @ r" by blast
  then show ?thesis
  proof cases
    case 1
    then show ?thesis using assms(1)
      by (simp add: segment_def new_key_def takeWhile_free_all)
  next
    case 2
    then show ?thesis using assms(1)
      by (simp add: segment_def new_key_def takeWhile_free)
  qed
qed

lemma segment_items:
  "k \<in> set (leaf_keys_items kvs parent_key [c]) \<Longrightarrow> well_keyed_items c kvs \<Longrightarrow>
   segment c parent_key k \<in> fst ` set kvs"
proof (induction kvs)
  case Nil
  then show ?case by simp
next
  case (Cons kv kvs)
  obtain g v where kv: "kv = (g, v)" by (cases kv)
  show ?case
  proof (cases "k \<in> set (leaf_keys v (new_key parent_key [c] g) [c])")
    case True
    from Cons.prems(2) kv have "c \<notin> set g" "g \<noteq> []" by simp_all
    from segment_child [OF this True] show ?thesis by (simp add: kv)
  next
    case False
    with Cons.prems kv have "k \<in> set (leaf_keys_items kvs parent_key [c])"
      and "well_keyed_items c kvs" by simp_all
    from Cons.IH [OF this] show ?thesis by simp
  qed
qed

lemma segment_elems:
  assumes c: "c \<notin> set ''0123456789''"
  shows "k \<in> set (leaf_keys_elems xs idx parent_key [c]) \<Longrightarrow>
         \<exists>j\<ge>idx. segment c parent_key k = str_nat j"
proof (induction xs arbitrary: idx)
  case Nil
  then show ?case by simp
next
  case (Cons x xs)
  show ?case
  proof (cases "k \<in> set (leaf_keys x (new_key parent_key [c] (str_nat idx)) [c])")
    case True
    have "c \<notin> set (str_nat idx)" using c str_nat_digits [of idx] by blast
    from segment_child [OF this str_nat_nonempty True] show ?thesis by blast
  next
    case False
    with Cons.prems have "k \<in> set (leaf_keys_elems xs (Suc idx) parent_key [c])" by simp
    from Cons.IH [OF this] obtain j where "j \<ge> Suc idx" "segment c parent_key k = str_nat j"
      by blast
    then show ?thesis by (intro exI [of _ j]) simp
  qed
qed

lemma well_keyed_distinct:
  assumes c: "c \<notin> set ''0123456789''"
  shows
  "sep = [c] \<Longrightarrow> well_keyed c d \<Longrightarrow> distinct (leaf_keys d parent_key sep)"
  "sep = [c] \<Longrightarrow> distinct (map fst kvs) \<Longrightarrow> well_keyed_items c kvs \<Longrightarrow>
     distinct (leaf_keys_items kvs parent_key sep)"
  "sep = [c] \<Longrightarrow> well_keyed_elems c xs \<Longrightarrow> distinct (leaf_keys_elems xs idx parent_key sep)"
proof (induction d parent_key sep and kvs parent_key sep and xs idx parent_key sep
       rule: leaf_keys_leaf_keys_items_leaf_keys_elems.induct)
  case (5 key val rest parent_key sep)
  note sep = "5.prems"(1)
  from "5.prems" have wk: "key \<noteq> []" "c \<notin> set key" "well_keyed c val" "well_keyed_items c rest"
    and dk: "key \<notin> fst ` set rest" "distinct (map fst rest)" by simp_all
  have A: "distinct (leaf_keys val (new_key parent_key sep key) sep)"
    using "5.IH"(1) sep wk(3) by simp
  have B: "distinct (leaf_keys_items rest parent_key sep)"
    using "5.IH"(2) sep dk(2) wk(4) by simp
  have "k \<notin> set (leaf_keys_items rest parent_key sep)"
    if k: "k \<in> set (leaf_keys val (new_key parent_key sep key) sep)" for k
  proof
    assume "k \<in> set (leaf_keys_items rest parent_key sep)"
    then have "segment c parent_key k \<in> fst ` set rest"
      using wk(4) segment_items unfolding sep by blast
    moreover have "segment c parent_key k = key"
      using segment_child [OF wk(2,1)] k unfolding sep by blast
    ultimately show False using dk(1) by simp
  qed
  with A B show ?case by auto
next
  case (7 val rest idx parent_key sep)
  note sep = "7.prems"(1)
  from "7.prems" have wk: "well_keyed c val" "well_keyed_elems c rest" by simp_all
  have A: "distinct (leaf_keys val (new_key parent_key sep (str_nat idx)) sep)"
    using "7.IH"(1) sep wk(1) by simp
  have B: "distinct (leaf_keys_elems rest (Suc idx) parent_key sep)"
    using "7.IH"(2) sep wk(2) by simp
  have free: "c \<notin> set (str_nat idx)" using c str_nat_digits [of idx] by blast
  have "k \<notin> set (leaf_keys_elems rest (Suc idx) parent_key sep)"
    if k: "k \<in> set (leaf_keys val (new_key parent_key sep (str_nat idx)) sep)" for k
  proof
    assume "k \<in> set (leaf_keys_elems rest (Suc idx) parent_key sep)"
    then obtain j where j: "j \<ge> Suc idx" "segment c parent_key k = str_nat j"
      using segment_elems [OF c] unfolding sep by blast
    moreover have "segment c parent_key k = str_nat idx"
      using segment_child [OF free str_nat_nonempty] k unfolding sep by blast
    ultimately have "str_nat j = str_nat idx" by simp
    then have "j = idx" by (rule str_nat_inj)
    with j(1) show False by simp
  qed
  with A B show ?case by auto
qed simp_all

text \<open>
  Claim C5, as amended. The flat record never has more entries than the nested record has
  scalar leaves, and it has exactly as many whenever no two leaves are stored under the
  same flat key. That is so, in particular, when the separator is one character that is
  no digit and the record is well keyed for it. An empty mapping and an empty sequence
  contribute no entry.
\<close>

theorem flatten_json_leaf_count:
  "length (flatten_json r p s) \<le> count_leaves r \<and>
   (distinct (leaf_keys r p s) \<longrightarrow> length (flatten_json r p s) = count_leaves r) \<and>
   (well_keyed c r \<and> c \<notin> set ''0123456789'' \<longrightarrow>
      length (flatten_json r p [c]) = count_leaves r) \<and>
   flatten_json (Dict []) p s = [] \<and> flatten_json (Arr []) p s = []"
proof -
  have "card (set (leaf_keys r p s)) \<le> length (leaf_keys r p s)" by (rule card_length)
  then have le: "length (flatten_json r p s) \<le> count_leaves r"
    by (simp add: flatten_length_card leaf_keys_length)
  have eq: "length (flatten_json r p t) = count_leaves r" if "distinct (leaf_keys r p t)" for t
    using that by (simp add: flatten_length_card distinct_card leaf_keys_length)
  have "length (flatten_json r p [c]) = count_leaves r"
    if "well_keyed c r" "c \<notin> set ''0123456789''"
    using that well_keyed_distinct(1) [of c "[c]" r p] eq [of "[c]"] by blast
  with le eq [of s] show ?thesis by simp
qed

theorem flatten_json_leaf_count_witness:
  "distinct (leaf_keys (Dict [(''a'', Dict [(''b'', Scalar (SNum 1)), (''e'', Dict [])]),
                              (''c'', Arr [Scalar SNull, Scalar (SStr ''x'')])]) [] ''_'') \<and>
   well_keyed (CHR ''_'') (Dict [(''a'', Dict [(''b'', Scalar (SNum 1)), (''e'', Dict [])]),
                              (''c'', Arr [Scalar SNull, Scalar (SStr ''x'')])]) \<and>
   CHR ''_'' \<notin> set ''0123456789'' \<and>
   length (flatten_json (Dict [(''a'', Dict [(''b'', Scalar (SNum 1)), (''e'', Dict [])]),
                               (''c'', Arr [Scalar SNull, Scalar (SStr ''x'')])]) [] ''_'') = 3 \<and>
   count_leaves (Dict [(''a'', Dict [(''b'', Scalar (SNum 1)), (''e'', Dict [])]),
                       (''c'', Arr [Scalar SNull, Scalar (SStr ''x'')])]) = 3"
proof -
  let ?r = "Dict [(''a'', Dict [(''b'', Scalar (SNum 1)), (''e'', Dict [])]),
                  (''c'', Arr [Scalar SNull, Scalar (SStr ''x'')])]"
  have d: "distinct (leaf_keys ?r [] ''_'')" by code_simp
  have w: "well_keyed (CHR ''_'') ?r" by simp
  have c: "CHR ''_'' \<notin> set ''0123456789''" by simp
  have n: "count_leaves ?r = 3" by simp
  from flatten_json_leaf_count [of ?r "[]" "''_''" "CHR ''_''"] d w c n show ?thesis by simp
qed

text \<open>A key that contains the separator: the leaves at \<^verbatim>\<open>a_b\<close> and at \<^verbatim>\<open>a\<close>, \<^verbatim>\<open>b\<close> share
  the flat key \<^verbatim>\<open>a_b\<close>, and the later one overwrites the earlier.\<close>

theorem flatten_json_leaf_count_counterexample:
  "flatten_json (Dict [(''a_b'', Scalar (SNum 1)), (''a'', Dict [(''b'', Scalar (SNum 2))])]) [] ''_''
     = [(''a_b'', SNum 2)] \<and>
   count_leaves (Dict [(''a_b'', Scalar (SNum 1)), (''a'', Dict [(''b'', Scalar (SNum 2))])]) = 2 \<and>
   length (flatten_json (Dict [(''a_b'', Scalar (SNum 1)), (''a'', Dict [(''b'', Scalar (SNum 2))])])
             [] ''_'')
     \<noteq> count_leaves (Dict [(''a_b'', Scalar (SNum 1)), (''a'', Dict [(''b'', Scalar (SNum 2))])])"
  by (simp add: new_key_def dict_update_def dict_setitem_def)

section \<open>Determinism of the flattener\<close>

lemma take_prefix_nth: "take n xs = ys \<Longrightarrow> i < n \<Longrightarrow> xs ! i = ys ! i"
  by (metis nth_take)

lemma prefix_by_nth:
  assumes "length st \<le> length st'" and "\<And>i. i < length st \<Longrightarrow> st' ! i = st ! i"
  shows "take (length st) st' = st"
  using assms by (intro nth_equalityI) simp_all

lemma flatten_json_st_step:
  assumes P: "fst (flatten_json_st val k sep st) = length st"
      "length st < length (snd (flatten_json_st val k sep st))"
      "take (length st) (snd (flatten_json_st val k sep st)) = st"
      "snd (flatten_json_st val k sep st) ! length st = flatten_json val k sep"
    and a: "a < length st" "st ! a = items"
  defines "st2 \<equiv> store_update a (fst (flatten_json_st val k sep st)) (snd (flatten_json_st val k sep st))"
  shows "a < length st2" "st2 ! a = dict_update items (flatten_json val k sep)"
    "length st \<le> length st2" "\<And>i. i < length st \<Longrightarrow> i \<noteq> a \<Longrightarrow> st2 ! i = st ! i"
proof -
  let ?st1 = "snd (flatten_json_st val k sep st)"
  have st2: "st2 = ?st1[a := dict_update (?st1 ! a) (?st1 ! length st)]"
    by (simp add: st2_def store_update_def P(1))
  have old: "?st1 ! i = st ! i" if "i < length st" for i
    using P(3) that by (rule take_prefix_nth)
  show "a < length st2" using a(1) P(2) by (simp add: st2)
  show "st2 ! a = dict_update items (flatten_json val k sep)"
    using a P(2,4) old [of a] by (simp add: st2)
  show "length st \<le> length st2" using P(2) by (simp add: st2)
  show "st2 ! i = st ! i" if "i < length st" "i \<noteq> a" for i
    using that old [of i] by (simp add: st2)
qed

lemma flatten_st:
  "fst (flatten_json_st d p s st) = length st \<and>
   length st < length (snd (flatten_json_st d p s st)) \<and>
   take (length st) (snd (flatten_json_st d p s st)) = st \<and>
   snd (flatten_json_st d p s st) ! length st = flatten_json d p s"
  "a < length st \<Longrightarrow> st ! a = items \<Longrightarrow>
   length st \<le> length (flatten_items_st kvs p s a st) \<and>
   (\<forall>i<length st. i \<noteq> a \<longrightarrow> flatten_items_st kvs p s a st ! i = st ! i) \<and>
   flatten_items_st kvs p s a st ! a = flatten_items kvs p s items"
  "a < length st \<Longrightarrow> st ! a = items \<Longrightarrow>
   length st \<le> length (flatten_elems_st xs idx p s a st) \<and>
   (\<forall>i<length st. i \<noteq> a \<longrightarrow> flatten_elems_st xs idx p s a st ! i = st ! i) \<and>
   flatten_elems_st xs idx p s a st ! a = flatten_elems xs idx p s items"
proof (induction d p s and kvs p s items and xs idx p s items arbitrary: st and a st and a st
       rule: flatten_json_flatten_items_flatten_elems.induct)
  case (1 kvs parent_key sep)
  let ?st0 = "st @ [[]]"
  let ?st' = "flatten_items_st kvs parent_key sep (length st) ?st0"
  have run: "flatten_json_st (Dict kvs) parent_key sep st = (length st, ?st')"
    by (simp add: new_dict_def)
  have "length st < length ?st0" "?st0 ! length st = []" by simp_all
  from "1.IH" [OF this] have
    len: "length ?st0 \<le> length ?st'" and
    frame: "\<forall>i<length ?st0. i \<noteq> length st \<longrightarrow> ?st' ! i = ?st0 ! i" and
    res: "?st' ! length st = flatten_items kvs parent_key sep []"
    by blast+
  have lt: "length st < length ?st'" using len by simp
  have tk: "take (length st) ?st' = st"
  proof (rule prefix_by_nth)
    show "length st \<le> length ?st'" using len by simp
    show "?st' ! i = st ! i" if "i < length st" for i
    proof -
      from that have "i < length ?st0" "i \<noteq> length st" by simp_all
      with frame have "?st' ! i = ?st0 ! i" by blast
      also have "\<dots> = st ! i" using that by (simp add: nth_append)
      finally show ?thesis .
    qed
  qed
  show ?case
    unfolding run fst_conv snd_conv flatten_json.simps
    by (intro conjI refl lt tk res)
next
  case (2 xs parent_key sep)
  let ?st0 = "st @ [[]]"
  let ?st' = "flatten_elems_st xs 0 parent_key sep (length st) ?st0"
  have run: "flatten_json_st (Arr xs) parent_key sep st = (length st, ?st')"
    by (simp add: new_dict_def)
  have "length st < length ?st0" "?st0 ! length st = []" by simp_all
  from "2.IH" [OF this] have
    len: "length ?st0 \<le> length ?st'" and
    frame: "\<forall>i<length ?st0. i \<noteq> length st \<longrightarrow> ?st' ! i = ?st0 ! i" and
    res: "?st' ! length st = flatten_elems xs 0 parent_key sep []"
    by blast+
  have lt: "length st < length ?st'" using len by simp
  have tk: "take (length st) ?st' = st"
  proof (rule prefix_by_nth)
    show "length st \<le> length ?st'" using len by simp
    show "?st' ! i = st ! i" if "i < length st" for i
    proof -
      from that have "i < length ?st0" "i \<noteq> length st" by simp_all
      with frame have "?st' ! i = ?st0 ! i" by blast
      also have "\<dots> = st ! i" using that by (simp add: nth_append)
      finally show ?thesis .
    qed
  qed
  show ?case
    unfolding run fst_conv snd_conv flatten_json.simps
    by (intro conjI refl lt tk res)
next
  case (3 v parent_key sep)
  show ?case by (simp add: new_dict_def store_setitem_def)
next
  case (4 parent_key sep items)
  then show ?case by simp
next
  case (5 key val rest parent_key sep items)
  let ?k = "new_key parent_key sep key"
  let ?R = "flatten_json_st val ?k sep st"
  let ?st2 = "store_update a (fst ?R) (snd ?R)"
  have run: "flatten_items_st ((key, val) # rest) parent_key sep a st
      = flatten_items_st rest parent_key sep a ?st2"
    by (simp add: split_beta)
  from "5.IH"(1) [of st] have P: "fst ?R = length st" "length st < length (snd ?R)"
      "take (length st) (snd ?R) = st" "snd ?R ! length st = flatten_json val ?k sep"
    by blast+
  note S = flatten_json_st_step [OF P "5.prems"]
  from "5.IH"(2) [OF S(1,2)] have
    len: "length ?st2 \<le> length (flatten_items_st rest parent_key sep a ?st2)" and
    frame: "\<forall>i<length ?st2. i \<noteq> a \<longrightarrow> flatten_items_st rest parent_key sep a ?st2 ! i = ?st2 ! i" and
    res: "flatten_items_st rest parent_key sep a ?st2 ! a
      = flatten_items rest parent_key sep (dict_update items (flatten_json val ?k sep))"
    by blast+
  have old: "flatten_items_st rest parent_key sep a ?st2 ! i = st ! i"
    if "i < length st" "i \<noteq> a" for i
  proof -
    from that S(3) have "i < length ?st2" by simp
    with frame that(2) have "flatten_items_st rest parent_key sep a ?st2 ! i = ?st2 ! i" by blast
    also have "\<dots> = st ! i" using that by (rule S(4))
    finally show ?thesis .
  qed
  have le: "length st \<le> length (flatten_items_st rest parent_key sep a ?st2)"
    using len S(3) by (rule order_trans [rotated])
  show ?case
    unfolding run flatten_items.simps
    using old le res by blast
next
  case (6 idx parent_key sep items)
  then show ?case by simp
next
  case (7 val rest idx parent_key sep items)
  let ?k = "new_key parent_key sep (str_nat idx)"
  let ?R = "flatten_json_st val ?k sep st"
  let ?st2 = "store_update a (fst ?R) (snd ?R)"
  have run: "flatten_elems_st (val # rest) idx parent_key sep a st
      = flatten_elems_st rest (Suc idx) parent_key sep a ?st2"
    by (simp add: split_beta)
  from "7.IH"(1) [of st] have P: "fst ?R = length st" "length st < length (snd ?R)"
      "take (length st) (snd ?R) = st" "snd ?R ! length st = flatten_json val ?k sep"
    by blast+
  note S = flatten_json_st_step [OF P "7.prems"]
  from "7.IH"(2) [OF S(1,2)] have
    len: "length ?st2 \<le> length (flatten_elems_st rest (Suc idx) parent_key sep a ?st2)" and
    frame: "\<forall>i<length ?st2. i \<noteq> a \<longrightarrow>
      flatten_elems_st rest (Suc idx) parent_key sep a ?st2 ! i = ?st2 ! i" and
    res: "flatten_elems_st rest (Suc idx) parent_key sep a ?st2 ! a
      = flatten_elems rest (Suc idx) parent_key sep (dict_update items (flatten_json val ?k sep))"
    by blast+
  have old: "flatten_elems_st rest (Suc idx) parent_key sep a ?st2 ! i = st ! i"
    if "i < length st" "i \<noteq> a" for i
  proof -
    from that S(3) have "i < length ?st2" by simp
    with frame that(2) have "flatten_elems_st rest (Suc idx) parent_key sep a ?st2 ! i = ?st2 ! i" by blast
    also have "\<dots> = st ! i" using that by (rule S(4))
    finally show ?thesis .
  qed
  have le: "length st \<le> length (flatten_elems_st rest (Suc idx) parent_key sep a ?st2)"
    using len S(3) by (rule order_trans [rotated])
  show ?case
    unfolding run flatten_elems.simps
    using old le res by blast
qed

text \<open>
  Claim C9. Whatever the store holds when the flattener is called, the call returns a
  dictionary of its own (a new address), changes no dictionary that existed before, and
  the dictionary it returns is the value of \<^const>\<open>flatten_json\<close>: its entries do not
  depend on the store. In particular a second evaluation on the same record, prefix and
  separator, run in the store the first one left behind, returns a second dictionary with
  the same entries in the same order, and leaves the first result as it was. This is a
  property of this body: one that reused a dictionary found in the store, as a default
  argument created once would, does not have it.
\<close>

theorem flatten_json_deterministic:
  "fst (flatten_json_st r p s st) = length st \<and>
   take (length st) (snd (flatten_json_st r p s st)) = st \<and>
   snd (flatten_json_st r p s st) ! fst (flatten_json_st r p s st) = flatten_json r p s \<and>
   snd (flatten_json_st r p s st) ! fst (flatten_json_st r p s st)
     = snd (flatten_json_st r p s st') ! fst (flatten_json_st r p s st') \<and>
   (case flatten_json_st r p s st of (a1, st1) \<Rightarrow>
      case flatten_json_st r p s st1 of (a2, st2) \<Rightarrow>
        a2 \<noteq> a1 \<and> st2 ! a1 = st1 ! a1 \<and> st2 ! a2 = st2 ! a1)"
proof -
  let ?R = "flatten_json_st r p s st"
  let ?R2 = "flatten_json_st r p s (snd ?R)"
  from flatten_st(1) [of r p s st] have
    A: "fst ?R = length st" "length st < length (snd ?R)" "take (length st) (snd ?R) = st"
      "snd ?R ! length st = flatten_json r p s"
    by blast+
  from flatten_st(1) [of r p s st'] have
    A': "fst (flatten_json_st r p s st') = length st'"
      "snd (flatten_json_st r p s st') ! length st' = flatten_json r p s"
    by blast+
  from flatten_st(1) [of r p s "snd ?R"] have
    B: "fst ?R2 = length (snd ?R)" "take (length (snd ?R)) (snd ?R2) = snd ?R"
      "snd ?R2 ! length (snd ?R) = flatten_json r p s"
    by blast+
  have kept: "snd ?R2 ! length st = snd ?R ! length st"
    using B(2) A(2) by (rule take_prefix_nth)
  have c1: "fst ?R = length st" by (rule A(1))
  have c2: "take (length st) (snd ?R) = st" by (rule A(3))
  have c3: "snd ?R ! fst ?R = flatten_json r p s" by (simp only: A(1) A(4))
  have c4: "snd ?R ! fst ?R = snd (flatten_json_st r p s st') ! fst (flatten_json_st r p s st')"
    by (simp only: A(1) A(4) A')
  have d1: "fst ?R2 \<noteq> fst ?R" using A(2) by (simp only: A(1) B(1))
  have d2: "snd ?R2 ! fst ?R = snd ?R ! fst ?R" by (simp only: A(1) kept)
  have d3: "snd ?R2 ! fst ?R2 = snd ?R2 ! fst ?R" by (simp only: A(1) B(1) B(3) kept A(4))
  have "case ?R of (a1, st1) \<Rightarrow> case flatten_json_st r p s st1 of (a2, st2) \<Rightarrow>
          a2 \<noteq> a1 \<and> st2 ! a1 = st1 ! a1 \<and> st2 ! a2 = st2 ! a1"
    unfolding split_beta using d1 d2 d3 by (intro conjI)
  with c1 c2 c3 c4 show ?thesis by (intro conjI)
qed

text \<open>Two evaluations in a row, started in a store that already holds a dictionary.\<close>

theorem flatten_json_deterministic_witness:
  "flatten_json_st (Dict [(''x'', Arr [Dict [(''y'', Scalar (SNum 2))]])]) [] ''_''
       [[(''x_0_y'', SNum 7)]]
     = (1, [[(''x_0_y'', SNum 7)], [(''x_0_y'', SNum 2)], [(''x_0_y'', SNum 2)],
            [(''x_0_y'', SNum 2)], [(''x_0_y'', SNum 2)]]) \<and>
   fst (flatten_json_st (Dict [(''x'', Arr [Dict [(''y'', Scalar (SNum 2))]])]) [] ''_''
       (snd (flatten_json_st (Dict [(''x'', Arr [Dict [(''y'', Scalar (SNum 2))]])]) [] ''_''
          [[(''x_0_y'', SNum 7)]]))) = 5 \<and>
   snd (flatten_json_st (Dict [(''x'', Arr [Dict [(''y'', Scalar (SNum 2))]])]) [] ''_''
       (snd (flatten_json_st (Dict [(''x'', Arr [Dict [(''y'', Scalar (SNum 2))]])]) [] ''_''
          [[(''x_0_y'', SNum 7)]]))) ! 5 = [(''x_0_y'', SNum 2)] \<and>
   snd (flatten_json_st (Dict [(''x'', Arr [Dict [(''y'', Scalar (SNum 2))]])]) [] ''_''
       [[(''x_0_y'', SNum 7)]]) ! 1
     = flatten_json (Dict [(''x'', Arr [Dict [(''y'', Scalar (SNum 2))]])]) [] ''_''"
proof -
  let ?r = "Dict [(''x'', Arr [Dict [(''y'', Scalar (SNum 2))]])]"
  let ?st = "[[(''x_0_y'', SNum 7)]]"
  have one: "flatten_json_st ?r [] ''_'' ?st
     = (1, [[(''x_0_y'', SNum 7)], [(''x_0_y'', SNum 2)], [(''x_0_y'', SNum 2)],
            [(''x_0_y'', SNum 2)], [(''x_0_y'', SNum 2)]])"
    by code_simp
  have two: "fst (flatten_json_st ?r [] ''_'' (snd (flatten_json_st ?r [] ''_'' ?st))) = 5"
    "snd (flatten_json_st ?r [] ''_'' (snd (flatten_json_st ?r [] ''_'' ?st))) ! 5
       = [(''x_0_y'', SNum 2)]"
    by code_simp+
  from flatten_json_deterministic [of ?r "[]" "''_''" ?st ?st]
  have "snd (flatten_json_st ?r [] ''_'' ?st) ! fst (flatten_json_st ?r [] ''_'' ?st)
      = flatten_json ?r [] ''_''"
    by blast
  then have "snd (flatten_json_st ?r [] ''_'' ?st) ! 1 = flatten_json ?r [] ''_''"
    by (simp only: one fst_conv)
  with one two show ?thesis by (intro conjI)
qed

section \<open>Projection onto the column set\<close>

lemma dict_setitem_fresh: "k \<notin> fst ` set d \<Longrightarrow> dict_setitem k v d = d @ [(k, v)]"
  unfolding dict_setitem_def by (induction d) auto

lemma project_fold:
  "distinct columns \<Longrightarrow> set columns \<inter> fst ` set row = {} \<Longrightarrow>
   fold (\<lambda>col row. dict_setitem col (dict_get f col) row) columns row
     = row @ map (\<lambda>col. (col, dict_get f col)) columns"
proof (induction columns arbitrary: row)
  case Nil
  then show ?case by simp
next
  case (Cons c cs)
  from Cons.prems have fresh: "c \<notin> fst ` set row" by auto
  have step: "dict_setitem c (dict_get f c) row = row @ [(c, dict_get f c)]"
    using fresh by (rule dict_setitem_fresh)
  from Cons.prems have "distinct cs" and "set cs \<inter> fst ` set (row @ [(c, dict_get f c)]) = {}"
    by auto
  from Cons.IH [OF this] show ?case by (simp add: step)
qed

lemma project_rows: "distinct C \<Longrightarrow> project f C = map (\<lambda>col. (col, dict_get f col)) C"
  unfolding project_def using project_fold [of C "[]" f] by simp

lemma infer_columns_distinct: "distinct (infer_columns r)"
  using flatten_distinct(1) [of r "[]" "''_''"] by (simp add: infer_columns_def)

lemma infer_columns_sorted: "sorted (infer_columns r)"
  by (simp add: infer_columns_def)

text \<open>
  Claim C7. For a column set (a list of distinct column names) and any flat record, the
  projected row lists exactly the columns of the column set, in its order; each column
  holds the flat record's value for that key, or null when the flat record has no such
  key. A key of the flat record that is no column does not occur in the row. Every column
  set that \<^const>\<open>infer_columns\<close> returns is such a list.
\<close>

theorem project_total_coverage:
  assumes "distinct C"
  shows "project f C = map (\<lambda>col. (col, case map_of f col of Some v \<Rightarrow> v | None \<Rightarrow> SNull)) C \<and>
         map fst (project f C) = C \<and>
         distinct (infer_columns sample_record) \<and> sorted (infer_columns sample_record)"
proof -
  have "project f C = map (\<lambda>col. (col, dict_get f col)) C"
    using assms by (rule project_rows)
  moreover have "(\<lambda>col. (col, dict_get f col))
     = (\<lambda>col. (col, case map_of f col of Some v \<Rightarrow> v | None \<Rightarrow> SNull))"
    by (auto simp: dict_get_def fun_eq_iff split: option.splits)
  ultimately have a: "project f C = map (\<lambda>col. (col, case map_of f col of Some v \<Rightarrow> v | None \<Rightarrow> SNull)) C"
    by simp
  have "map fst (map (\<lambda>col. (col, case map_of f col of Some v \<Rightarrow> v | None \<Rightarrow> SNull)) C) = C"
    by (simp add: comp_def)
  with a infer_columns_distinct infer_columns_sorted show ?thesis by simp
qed

theorem project_total_coverage_witness:
  "distinct [''a'', ''b_c''] \<and>
   project [(''b_c'', SNum 2), (''z'', SBool True)] [''a'', ''b_c''] = [(''a'', SNull), (''b_c'', SNum 2)]"
  using project_total_coverage [of "[''a'', ''b_c'']" "[(''b_c'', SNum 2), (''z'', SBool True)]"]
  by simp

section \<open>The batch loop\<close>

lemma batches_written_append:
  "batches_written (xs @ ys) = batches_written xs @ batches_written ys"
  by (induction xs rule: batches_written.induct) simp_all

lemma batch_loop_rows:
  "concat (batches_written (fst (batch_loop g columns recs (evs, batch))))
     @ snd (batch_loop g columns recs (evs, batch))
   = concat (batches_written evs) @ batch @ map (row_of columns) recs"
proof (induction recs arbitrary: evs batch)
  case Nil
  then show ?case by simp
next
  case (Cons r recs)
  show ?case
  proof (cases "int (length (batch @ [row_of columns r])) \<ge> BATCH_SIZE g")
    case True
    then have "batch_loop g columns (r # recs) (evs, batch)
      = batch_loop g columns recs
          (evs @ [ExecuteMany (insert_sql g columns) (batch @ [row_of columns r]), Commit], [])"
      by (simp add: row_of_def)
    then show ?thesis
      using Cons.IH [of "evs @ [ExecuteMany (insert_sql g columns) (batch @ [row_of columns r]), Commit]" "[]"]
      by (simp add: batches_written_append)
  next
    case False
    then have "batch_loop g columns (r # recs) (evs, batch)
      = batch_loop g columns recs (evs, batch @ [row_of columns r])"
      by (simp add: row_of_def)
    then show ?thesis
      using Cons.IH [of evs "batch @ [row_of columns r]"] by simp
  qed
qed

lemma batch_loop_counts:
  assumes T: "BATCH_SIZE g = int T" "0 < T"
  shows "length batch < T \<Longrightarrow>
    (\<exists>ws. batches_written (fst (batch_loop g columns recs (evs, batch)))
            = batches_written evs @ ws \<and>
          length ws = (length batch + length recs) div T \<and>
          (\<forall>w \<in> set ws. length w = T)) \<and>
    length (snd (batch_loop g columns recs (evs, batch))) = (length batch + length recs) mod T"
proof (induction recs arbitrary: evs batch)
  case Nil
  then show ?case by simp
next
  case (Cons r recs)
  let ?b = "batch @ [row_of columns r]"
  show ?case
  proof (cases "length ?b \<ge> T")
    case True
    with Cons.prems have len: "length ?b = T" by simp
    let ?evs = "evs @ [ExecuteMany (insert_sql g columns) ?b, Commit]"
    from True T have eq: "batch_loop g columns (r # recs) (evs, batch)
      = batch_loop g columns recs (?evs, [])"
      by (simp add: row_of_def)
    from T have "length ([]::flat list) < T" by simp
    from Cons.IH [OF this, of ?evs] obtain ws where
      ws: "batches_written (fst (batch_loop g columns recs (?evs, []))) = batches_written ?evs @ ws"
        "length ws = length recs div T" "\<forall>w \<in> set ws. length w = T"
      and rest: "length (snd (batch_loop g columns recs (?evs, []))) = length recs mod T"
      by auto
    from len have n: "length batch + length (r # recs) = T + length recs" by simp
    have d: "(T + length recs) div T = Suc (length recs div T)"
      using T(2) div_add_self1 [of T "length recs"] by simp
    have m: "(T + length recs) mod T = length recs mod T" by simp
    have "batches_written (fst (batch_loop g columns (r # recs) (evs, batch)))
            = batches_written evs @ (?b # ws)"
      using ws(1) eq by (simp add: batches_written_append)
    moreover have "length (?b # ws) = (length batch + length (r # recs)) div T"
    proof -
      have "length (?b # ws) = Suc (length recs div T)" using ws(2) by simp
      also have "\<dots> = (T + length recs) div T" by (simp only: d)
      also have "\<dots> = (length batch + length (r # recs)) div T" by (simp only: n)
      finally show ?thesis .
    qed
    moreover have "\<forall>w \<in> set (?b # ws). length w = T" using ws(3) len by simp
    moreover have "length (snd (batch_loop g columns (r # recs) (evs, batch)))
       = (length batch + length (r # recs)) mod T"
    proof -
      have "length (snd (batch_loop g columns (r # recs) (evs, batch))) = length recs mod T"
        using rest by (simp only: eq)
      also have "\<dots> = (T + length recs) mod T" by (simp only: m)
      also have "\<dots> = (length batch + length (r # recs)) mod T" by (simp only: n)
      finally show ?thesis .
    qed
    ultimately show ?thesis by blast
  next
    case False
    then have lt: "length ?b < T" by simp
    from False T have eq: "batch_loop g columns (r # recs) (evs, batch)
      = batch_loop g columns recs (evs, ?b)"
      by (simp add: row_of_def)
    from Cons.IH [OF lt, of evs] show ?thesis unfolding eq by simp
  qed
qed

text \<open>
  Claim C4, as amended. With a threshold \<open>T > 0\<close>, appending \<open>N\<close> rows writes exactly
  \<open>N div T\<close> batches of \<open>T\<close> rows each during the loop and leaves \<open>N mod T\<close> rows; the
  final flush writes those rows in one more batch when there are any, and issues no call
  when there are none.
\<close>

theorem batch_flush_counts:
  assumes "0 < BATCH_SIZE g"
  shows "length (batches_written (fst (batch_loop g columns recs ([], []))))
           = length recs div nat (BATCH_SIZE g) \<and>
         (\<forall>b \<in> set (batches_written (fst (batch_loop g columns recs ([], [])))).
            length b = nat (BATCH_SIZE g)) \<and>
         length (snd (batch_loop g columns recs ([], []))) = length recs mod nat (BATCH_SIZE g) \<and>
         final_flush g columns (snd (batch_loop g columns recs ([], [])))
           = (if length recs mod nat (BATCH_SIZE g) = 0 then []
              else [ExecuteMany (insert_sql g columns) (snd (batch_loop g columns recs ([], []))),
                    Commit])"
proof -
  let ?T = "nat (BATCH_SIZE g)"
  from assms have T: "BATCH_SIZE g = int ?T" "0 < ?T" by simp_all
  have "length ([]::flat list) < ?T" using T by simp
  from batch_loop_counts [OF T this, of columns recs "[]"] obtain ws where
    ws: "batches_written (fst (batch_loop g columns recs ([], []))) = ws"
      "length ws = length recs div ?T" "\<forall>w \<in> set ws. length w = ?T"
    and rest: "length (snd (batch_loop g columns recs ([], []))) = length recs mod ?T"
    by auto
  have "final_flush g columns (snd (batch_loop g columns recs ([], [])))
           = (if length recs mod ?T = 0 then []
              else [ExecuteMany (insert_sql g columns) (snd (batch_loop g columns recs ([], []))),
                    Commit])"
  proof (cases "snd (batch_loop g columns recs ([], [])) = []")
    case True
    with rest show ?thesis by (simp add: final_flush_def)
  next
    case False
    then have "length (snd (batch_loop g columns recs ([], []))) \<noteq> 0" by simp
    with rest have "length recs mod ?T \<noteq> 0" by simp
    with False show ?thesis by (simp add: final_flush_def)
  qed
  with ws rest show ?thesis by simp
qed

text \<open>Five rows with threshold 2: two batches in the loop, one row left for the final
  flush.\<close>

theorem batch_flush_counts_witness:
  "0 < BATCH_SIZE (cfg 2) \<and>
   length (batches_written (fst (batch_loop (cfg 2) [''uuid'', ''v'']
       [item ''a'' 1, item ''b'' 2, item ''c'' 3, item ''d'' 4, item ''e'' 5] ([], [])))) = 2 \<and>
   length (snd (batch_loop (cfg 2) [''uuid'', ''v'']
       [item ''a'' 1, item ''b'' 2, item ''c'' 3, item ''d'' 4, item ''e'' 5] ([], []))) = 1 \<and>
   final_flush (cfg 2) [''uuid'', ''v'']
     (snd (batch_loop (cfg 2) [''uuid'', ''v'']
       [item ''a'' 1, item ''b'' 2, item ''c'' 3, item ''d'' 4, item ''e'' 5] ([], [])))
     = [ExecuteMany (insert_sql (cfg 2) [''uuid'', ''v''])
          (snd (batch_loop (cfg 2) [''uuid'', ''v'']
            [item ''a'' 1, item ''b'' 2, item ''c'' 3, item ''d'' 4, item ''e'' 5] ([], []))),
        Commit]"
  using batch_flush_counts [of "cfg 2" "[''uuid'', ''v'']"
      "[item ''a'' 1, item ''b'' 2, item ''c'' 3, item ''d'' 4, item ''e'' 5]"]
  by (simp add: cfg_def)

text \<open>With threshold 2 and two rows the loop writes one batch and leaves none: the final
  flush issues no call.\<close>

theorem batch_flush_counts_counterexample:
  "batches_written (fst (batch_loop (cfg 2) [''uuid'', ''v''] [item ''a'' 1, item ''b'' 2] ([], [])))
     = [[[(''uuid'', SStr ''a''), (''v'', SNum 1)], [(''uuid'', SStr ''b''), (''v'', SNum 2)]]] \<and>
   snd (batch_loop (cfg 2) [''uuid'', ''v''] [item ''a'' 1, item ''b'' 2] ([], [])) = [] \<and>
   final_flush (cfg 2) [''uuid'', ''v'']
     (snd (batch_loop (cfg 2) [''uuid'', ''v''] [item ''a'' 1, item ''b'' 2] ([], []))) = []"
  by code_simp

section \<open>The full load on a non-empty source\<close>

lemma sink_after_append: "sink_after (xs @ ys) tbl = sink_after ys (sink_after xs tbl)"
  by (simp add: sink_after_def)

lemma load_truncate_nonempty:
  "load_truncate g (first_rec # others) =
     ensure_table g @
     fst (batch_loop g (infer_columns first_rec) (first_rec # first_rec # others) ([], [])) @
     final_flush g (infer_columns first_rec)
       (snd (batch_loop g (infer_columns first_rec) (first_rec # first_rec # others) ([], []))) @
     [CursorClose]"
  by (simp add: load_truncate_def scan_dynamodb_def Let_def split_beta)

lemma load_truncate_rows:
  "concat (batches_written (load_truncate g (first_rec # others)))
     = map (row_of (infer_columns first_rec)) (first_rec # first_rec # others)"
proof -
  let ?c = "infer_columns first_rec"
  let ?R = "batch_loop g ?c (first_rec # first_rec # others) ([], [])"
  have "concat (batches_written (fst ?R)) @ snd ?R
     = map (row_of ?c) (first_rec # first_rec # others)"
    using batch_loop_rows [of g ?c "first_rec # first_rec # others" "[]" "[]"] by simp
  moreover have "concat (batches_written (final_flush g ?c (snd ?R))) = snd ?R"
    by (simp add: final_flush_def)
  ultimately show ?thesis
    by (simp add: load_truncate_nonempty batches_written_append ensure_table_def)
qed

lemma sink_after_insert_many:
  "sink_after [ExecuteMany (insert_sql g columns) batch, Commit] tbl
     = tbl @ map (bind_params columns) batch"
proof -
  have "fold (exec_sql (InsertInto t columns)) batch tbl = tbl @ map (bind_params columns) batch"
    for t
    by (induction batch arbitrary: tbl) simp_all
  then show ?thesis by (simp add: sink_after_def insert_sql_def)
qed

lemma batch_loop_sink:
  "sink_after (fst (batch_loop g columns recs (evs, batch))) tbl
     @ map (bind_params columns) (snd (batch_loop g columns recs (evs, batch)))
   = sink_after evs tbl @ map (bind_params columns) (batch @ map (row_of columns) recs)"
proof (induction recs arbitrary: evs batch)
  case Nil
  then show ?case by simp
next
  case (Cons r recs)
  let ?b = "batch @ [row_of columns r]"
  show ?case
  proof (cases "int (length ?b) \<ge> BATCH_SIZE g")
    case True
    then have "batch_loop g columns (r # recs) (evs, batch)
      = batch_loop g columns recs (evs @ [ExecuteMany (insert_sql g columns) ?b, Commit], [])"
      by (simp add: row_of_def)
    then show ?thesis
      using Cons.IH [of "evs @ [ExecuteMany (insert_sql g columns) ?b, Commit]" "[]"]
      by (simp add: sink_after_append sink_after_insert_many)
  next
    case False
    then have "batch_loop g columns (r # recs) (evs, batch)
      = batch_loop g columns recs (evs, ?b)"
      by (simp add: row_of_def)
    then show ?thesis using Cons.IH [of evs ?b] by simp
  qed
qed

lemma load_truncate_appends:
  "sink_after (load_truncate g (first_rec # others)) tbl
     = tbl @ map (bound_row (infer_columns first_rec)) (first_rec # first_rec # others)"
proof -
  let ?c = "infer_columns first_rec"
  let ?R = "batch_loop g ?c (first_rec # first_rec # others) ([], [])"
  have flush: "sink_after (final_flush g ?c b) t = t @ map (bind_params ?c) b" for t b
    by (simp add: final_flush_def sink_after_insert_many) (simp add: sink_after_def)
  have ens: "sink_after (ensure_table g) tbl = tbl"
    by (simp add: sink_after_def ensure_table_def)
  have cls: "sink_after [CursorClose] t = t" for t
    by (simp add: sink_after_def)
  have "sink_after (load_truncate g (first_rec # others)) tbl
      = sink_after (fst ?R) tbl @ map (bind_params ?c) (snd ?R)"
    by (simp only: load_truncate_nonempty sink_after_append ens cls flush)
  also have "\<dots> = sink_after [] tbl
      @ map (bind_params ?c) ([] @ map (row_of ?c) (first_rec # first_rec # others))"
    by (rule batch_loop_sink)
  finally show ?thesis by (simp add: sink_after_def bound_row_def comp_def)
qed

text \<open>
  Claim C1 (the code departs from it). A source holding the single record
  \<^verbatim>\<open>{"uuid": "a", "v": 1}\<close> is loaded as two rows: the loop runs over
  \<^verbatim>\<open>[first_rec] + list(scan_dynamodb())\<close>, and the second scan starts again at the first
  record.
\<close>

theorem load_truncate_duplicates_first_record:
  "load_truncate (cfg 500) [item ''a'' 1] =
     [Execute (CreateTableIfNotExists ''db.public.items'') [],
      ExecuteMany (InsertInto ''db.public.items'' [''uuid'', ''v''])
        [[(''uuid'', SStr ''a''), (''v'', SNum 1)], [(''uuid'', SStr ''a''), (''v'', SNum 1)]],
      Commit, CursorClose] \<and>
   length (concat (batches_written (load_truncate (cfg 500) [item ''a'' 1]))) = 2"
  by code_simp

text \<open>
  Claim C2 (the code departs from it). On a destination that already holds the row
  \<open>(old, 0)\<close>, a full load of the one-record source leaves that row in place and appends
  the new rows: the run issues \<^verbatim>\<open>CREATE TABLE IF NOT EXISTS\<close> and inserts, and no statement
  that removes a row.
\<close>

theorem load_truncate_keeps_prior_rows:
  "shown (sink_after (load_truncate (cfg 500) [item ''a'' 1]) [stored ''old'' 0])
     = [(SStr ''old'', SNum 0), (SStr ''a'', SNum 1), (SStr ''a'', SNum 1)]"
  by code_simp

section \<open>The empty source\<close>

text \<open>
  Claim C3, as amended. When the scan yields no record, each load function makes the
  \<^verbatim>\<open>ensure_table\<close> call, logs the warning and returns: no insert and no merge is issued and
  the destination is left as it was. The handler then returns its fixed response, status
  200 with the same body as after a load of a non-empty source.
\<close>

theorem empty_source_outcome:
  "load_truncate g [] = ensure_table g @ [LogWarning ''No items in DynamoDB table.''] \<and>
   load_upsert g [] = ensure_table g @ [LogWarning ''No items in DynamoDB table.''] \<and>
   write_calls (snd (truncate_load_handler g [])) = [] \<and>
   write_calls (snd (incremental_upsert_handler g [])) = [] \<and>
   sink_after (snd (truncate_load_handler g [])) tbl = tbl \<and>
   sink_after (snd (incremental_upsert_handler g [])) tbl = tbl \<and>
   fst (truncate_load_handler g []) = \<lparr> statusCode = 200, body = ''Full load succeeded'' \<rparr> \<and>
   fst (incremental_upsert_handler g []) = \<lparr> statusCode = 200, body = ''Upsert succeeded'' \<rparr> \<and>
   fst (truncate_load_handler g []) = fst (truncate_load_handler g ddb) \<and>
   fst (incremental_upsert_handler g []) = fst (incremental_upsert_handler g ddb)"
  by (simp add: load_truncate_def load_upsert_def scan_dynamodb_def ensure_table_def
      truncate_load_handler_def incremental_upsert_handler_def write_calls_def sink_after_def)

text \<open>The response for the empty source is the response for a source with one record.\<close>

theorem empty_source_outcome_counterexample:
  "fst (truncate_load_handler (cfg 500) []) = fst (truncate_load_handler (cfg 500) [item ''a'' 1]) \<and>
   fst (truncate_load_handler (cfg 500) []) = \<lparr> statusCode = 200, body = ''Full load succeeded'' \<rparr> \<and>
   fst (incremental_upsert_handler (cfg 500) [])
     = fst (incremental_upsert_handler (cfg 500) [item ''a'' 1])"
  by (simp add: truncate_load_handler_def incremental_upsert_handler_def)

section \<open>The merge statement\<close>

lemma load_upsert_nonempty:
  "load_upsert g (first_rec # others) =
     ensure_table g @
     map (\<lambda>rec. Execute (merge_sql g (infer_columns first_rec))
                  (row_of (infer_columns first_rec) rec)) (first_rec # others) @
     [Commit, CursorClose]"
  by (simp add: load_upsert_def scan_dynamodb_def Let_def row_of_def)

text \<open>
  Claim C6, as amended. Every merge that \<^verbatim>\<open>load_upsert\<close> issues is the statement built from
  the inferred columns: it matches on the column named \<^verbatim>\<open>uuid\<close>, updates every inferred
  column but \<^verbatim>\<open>uuid\<close>, and inserts all inferred columns, so \<^verbatim>\<open>uuid\<close> is inserted exactly
  when it is an inferred column. The key column is this fixed name under every
  configuration.
\<close>

theorem merge_key_policy:
  "load_upsert g (first_rec # others) =
     ensure_table g @
     map (\<lambda>rec. Execute (merge_sql g (infer_columns first_rec))
                  (row_of (infer_columns first_rec) rec)) (first_rec # others) @
     [Commit, CursorClose] \<and>
   merge_sql g columns = MergeInto (merge_sql_parts g columns) \<and>
   on_col (merge_sql_parts g columns) = ''uuid'' \<and>
   ''uuid'' \<notin> set (update_cols (merge_sql_parts g columns)) \<and>
   set (update_cols (merge_sql_parts g columns)) = set columns - {''uuid''} \<and>
   using_cols (merge_sql_parts g columns) = columns \<and>
   insert_cols (merge_sql_parts g columns) = columns \<and>
   (''uuid'' \<in> set (insert_cols (merge_sql_parts g columns))) = (''uuid'' \<in> set columns)"
proof -
  have "set (update_cols (merge_sql_parts g columns)) = set columns - {''uuid''}"
    by (auto simp: merge_sql_parts_def)
  then show ?thesis
    by (simp add: load_upsert_nonempty merge_sql_def) (simp add: merge_sql_parts_def)
qed

text \<open>With every configured name set to \<^verbatim>\<open>id\<close> and records that carry \<^verbatim>\<open>id\<close> and
  \<^verbatim>\<open>uuid\<close>, the merge matches on \<^verbatim>\<open>uuid\<close> and overwrites \<^verbatim>\<open>id\<close>; with a sample record
  that has no \<^verbatim>\<open>uuid\<close>, the insert list has none either.\<close>

theorem merge_key_policy_counterexample:
  "sql_text (merge_sql (cfg_all ''id'') [''id'', ''uuid'']) =
     ''MERGE INTO id.id.id T USING (SELECT %(id)s AS id, %(uuid)s AS uuid) S ON T.uuid = S.uuid WHEN MATCHED THEN UPDATE SET T.id=S.id WHEN NOT MATCHED THEN INSERT (id, uuid) VALUES (S.id, S.uuid)'' \<and>
   on_col (merge_sql_parts (cfg_all ''id'') [''id'', ''uuid'']) \<noteq> ''id'' \<and>
   ''id'' \<in> set (update_cols (merge_sql_parts (cfg_all ''id'') [''id'', ''uuid''])) \<and>
   ''uuid'' \<notin> set (insert_cols (merge_sql_parts (cfg_all ''id'') (infer_columns (Dict [(''id'', Scalar (SNum 1))]))))"
  by code_simp

section \<open>Merging into the destination\<close>

lemma merge_update_key:
  "on_col m \<notin> set (update_cols m) \<Longrightarrow> merge_update m S T (on_col m) = T (on_col m)"
  by (simp add: merge_update_def)

lemma matches_merge_update:
  "on_col m \<notin> set (update_cols m) \<Longrightarrow> matches m X (merge_update m S T) = matches m X T"
  by (simp add: matches_def merge_update_key)

lemma merge_update_frame:
  "c \<notin> set (update_cols m) \<Longrightarrow> merge_update m S T c = T c"
  by (simp add: merge_update_def)

lemma fold_merge_update_frame:
  "c \<notin> set (update_cols m) \<Longrightarrow> fold (merge_update m) Ss T c = T c"
  by (induction Ss arbitrary: T) (simp_all add: merge_update_frame)

lemma matches_fold_merge_update:
  "on_col m \<notin> set (update_cols m) \<Longrightarrow> matches m X (fold (merge_update m) Ss T) = matches m X T"
  by (simp add: matches_def fold_merge_update_frame)

lemma fold_merge_update_no_match:
  "\<forall>S \<in> set Ss. \<not> matches m S T \<Longrightarrow> fold (merge_update m) Ss T = T"
  by (induction Ss) (simp_all add: merge_update_def)

lemma merge_update_absorb:
  assumes k: "on_col m \<notin> set (update_cols m)" and mt: "matches m S X"
  shows "merge_update m S (fold (merge_update m) Ss X) = merge_update m S X"
proof -
  have "matches m S (fold (merge_update m) Ss X)"
    using mt by (simp add: matches_fold_merge_update [OF k])
  with mt show ?thesis
    by (auto simp: merge_update_def fun_eq_iff fold_merge_update_frame)
qed

lemma list_ex_matches_map:
  "on_col m \<notin> set (update_cols m) \<Longrightarrow>
   list_ex (matches m X) (map (merge_update m S) tbl) = list_ex (matches m X) tbl"
  by (simp add: list_ex_iff matches_merge_update)

lemma merge_into_keeps_match:
  "on_col m \<notin> set (update_cols m) \<Longrightarrow> list_ex (matches m X) tbl \<Longrightarrow>
   list_ex (matches m X) (merge_into m S tbl)"
  by (simp add: merge_into_def list_ex_matches_map)

lemma fold_merge_into_keeps_match:
  "on_col m \<notin> set (update_cols m) \<Longrightarrow> list_ex (matches m X) tbl \<Longrightarrow>
   list_ex (matches m X) (fold (merge_into m) Ss tbl)"
  by (induction Ss arbitrary: tbl) (simp_all add: merge_into_keeps_match)

lemma merge_into_own_match:
  assumes "on_col m \<notin> set (update_cols m)" "on_col m \<in> set (insert_cols m)"
    and "S (on_col m) \<noteq> SNull"
  shows "list_ex (matches m S) (merge_into m S tbl)"
proof (cases "list_ex (matches m S) tbl")
  case True
  then show ?thesis using assms(1) by (rule merge_into_keeps_match [rotated])
next
  case False
  have "matches m S (merge_insert m S)"
    using assms(2,3) by (simp add: matches_def merge_insert_def sql_equal_def)
  with False show ?thesis by (simp add: merge_into_def)
qed

lemma fold_merge_into_all_match:
  assumes k: "on_col m \<notin> set (update_cols m)" "on_col m \<in> set (insert_cols m)"
  shows "S \<in> set Ss \<Longrightarrow> S (on_col m) \<noteq> SNull \<Longrightarrow>
         list_ex (matches m S) (fold (merge_into m) Ss tbl)"
proof (induction Ss arbitrary: tbl)
  case Nil
  then show ?case by simp
next
  case (Cons S0 Ss)
  show ?case
  proof (cases "S = S0")
    case True
    have "list_ex (matches m S) (merge_into m S tbl)"
      using k Cons.prems(2) by (rule merge_into_own_match)
    then show ?thesis using True
      by (simp add: fold_merge_into_keeps_match [OF k(1)])
  next
    case False
    with Cons.prems have "S \<in> set Ss" by simp
    from Cons.IH [OF this Cons.prems(2)] show ?thesis by simp
  qed
qed

lemma fold_merge_into_all_matched:
  assumes k: "on_col m \<notin> set (update_cols m)"
  shows "\<forall>S \<in> set Ss. list_ex (matches m S) tbl \<Longrightarrow>
         fold (merge_into m) Ss tbl = map (fold (merge_update m) Ss) tbl"
proof (induction Ss arbitrary: tbl)
  case Nil
  then show ?case by simp
next
  case (Cons S Ss)
  from Cons.prems have here: "merge_into m S tbl = map (merge_update m S) tbl"
    by (simp add: merge_into_def)
  from Cons.prems have "\<forall>S' \<in> set Ss. list_ex (matches m S') (map (merge_update m S) tbl)"
    by (simp add: list_ex_matches_map [OF k])
  from Cons.IH [OF this] show ?case by (simp add: here comp_def)
qed

lemma sql_equal_trans_key:
  "sql_equal a b \<Longrightarrow> sql_equal c b \<Longrightarrow> sql_equal c a"
  by (auto simp: sql_equal_def)

lemma merged_rows_fixed:
  assumes k: "on_col m \<notin> set (update_cols m)" "on_col m \<in> set (insert_cols m)"
    and sub: "set (update_cols m) \<subseteq> set (insert_cols m)"
  shows "\<forall>T \<in> set (fold (merge_into m) Ss tbl). fold (merge_update m) Ss T = T"
proof (induction Ss rule: rev_induct)
  case Nil
  then show ?case by simp
next
  case (snoc S Ss)
  let ?tbl = "fold (merge_into m) Ss tbl"
  have upd: "merge_update m S (fold (merge_update m) Ss (merge_update m S T)) = merge_update m S T"
    if T: "T \<in> set ?tbl" for T
  proof (cases "matches m S T")
    case True
    then have "matches m S (merge_update m S T)" by (simp add: matches_merge_update [OF k(1)])
    then have "merge_update m S (fold (merge_update m) Ss (merge_update m S T))
      = merge_update m S (merge_update m S T)"
      by (rule merge_update_absorb [OF k(1)])
    also have "\<dots> = merge_update m S T"
      by (auto simp: merge_update_def fun_eq_iff)
    finally show ?thesis .
  next
    case False
    then have "merge_update m S T = T" by (simp add: merge_update_def)
    with snoc.IH T show ?thesis by simp
  qed
  show ?case
  proof (cases "list_ex (matches m S) ?tbl")
    case True
    then have "merge_into m S ?tbl = map (merge_update m S) ?tbl"
      by (simp add: merge_into_def)
    then show ?thesis using upd by auto
  next
    case False
    then have none: "\<forall>T \<in> set ?tbl. \<not> matches m S T" by (simp add: list_ex_iff)
    have all: "merge_into m S ?tbl = ?tbl @ [merge_insert m S]"
      using False by (simp add: merge_into_def)
    have old: "merge_update m S (fold (merge_update m) Ss T) = T" if T: "T \<in> set ?tbl" for T
    proof -
      from T snoc.IH have "fold (merge_update m) Ss T = T" by blast
      moreover from T none have "\<not> matches m S T" by blast
      ultimately show ?thesis by (simp add: merge_update_def)
    qed
    have "\<not> matches m S' (merge_insert m S)" if S': "S' \<in> set Ss" for S'
    proof
      assume mt: "matches m S' (merge_insert m S)"
      then have eq: "sql_equal (S (on_col m)) (S' (on_col m))"
        using k(2) by (simp add: matches_def merge_insert_def)
      then have "S' (on_col m) \<noteq> SNull" by (simp add: sql_equal_def)
      with S' have "list_ex (matches m S') ?tbl"
        by (rule fold_merge_into_all_match [OF k])
      then obtain T where T: "T \<in> set ?tbl" "sql_equal (T (on_col m)) (S' (on_col m))"
        by (auto simp: list_ex_iff matches_def)
      from eq T(2) have "matches m S T"
        by (auto simp: matches_def sql_equal_def)
      with none T(1) show False by blast
    qed
    then have "fold (merge_update m) Ss (merge_insert m S) = merge_insert m S"
      by (simp add: fold_merge_update_no_match)
    moreover have "merge_update m S (merge_insert m S) = merge_insert m S"
      using sub by (auto simp: merge_update_def merge_insert_def fun_eq_iff)
    ultimately have new: "merge_update m S (fold (merge_update m) Ss (merge_insert m S))
       = merge_insert m S" by simp
    show ?thesis using old new by (auto simp: all)
  qed
qed

lemma merge_run_idempotent:
  assumes k: "on_col m \<notin> set (update_cols m)" "on_col m \<in> set (insert_cols m)"
    and sub: "set (update_cols m) \<subseteq> set (insert_cols m)"
    and keys: "\<forall>S \<in> set Ss. S (on_col m) \<noteq> SNull"
  shows "fold (merge_into m) Ss (fold (merge_into m) Ss tbl) = fold (merge_into m) Ss tbl"
proof -
  let ?t1 = "fold (merge_into m) Ss tbl"
  have "\<forall>S \<in> set Ss. list_ex (matches m S) ?t1"
    using keys fold_merge_into_all_match [OF k] by blast
  then have "fold (merge_into m) Ss ?t1 = map (fold (merge_update m) Ss) ?t1"
    by (rule fold_merge_into_all_matched [OF k(1)])
  also have "\<dots> = ?t1"
    using merged_rows_fixed [OF k sub, of Ss tbl] by (simp add: map_idI)
  finally show ?thesis .
qed

section \<open>Idempotence of the upsert\<close>

lemma infer_columns_set: "set (infer_columns r) = fst ` set (flatten_json r [] ''_'')"
  by (simp add: infer_columns_def)

lemma dict_get_present: "dict_get f k \<noteq> SNull \<Longrightarrow> k \<in> fst ` set f"
  by (force simp: dict_get_def split: option.splits dest!: map_of_SomeD)

lemma dict_get_project: "c \<in> set C \<Longrightarrow> dict_get (project f C) c = dict_get f c"
proof -
  have "map_of (fold (\<lambda>col row. dict_setitem col (dict_get f col) row) C row) c
      = (if c \<in> set C then Some (dict_get f c) else map_of row c)" for row
    by (induction C arbitrary: row) (auto simp: dict_setitem_def update_conv')
  then show "c \<in> set C \<Longrightarrow> dict_get (project f C) c = dict_get f c"
    by (simp add: project_def dict_get_def [of "fold _ _ _"])
qed

lemma bound_row_value: "c \<in> set columns \<Longrightarrow>
  bound_row columns rec c = dict_get (flatten_json rec [] ''_'') c"
  by (simp add: bound_row_def bind_params_def row_of_def dict_get_project)

lemma sink_after_merges:
  "sink_after (map (\<lambda>rec. Execute (MergeInto m) (row_of (using_cols m) rec)) recs) tbl
     = fold (merge_into m) (map (bound_row (using_cols m)) recs) tbl"
  by (induction recs arbitrary: tbl) (simp_all add: sink_after_def bound_row_def)

lemma sink_after_load_upsert:
  "sink_after (load_upsert g (first_rec # others)) tbl
     = fold (merge_into (merge_sql_parts g (infer_columns first_rec)))
         (map (bound_row (infer_columns first_rec)) (first_rec # others)) tbl"
proof -
  let ?m = "merge_sql_parts g (infer_columns first_rec)"
  have u: "using_cols ?m = infer_columns first_rec" by (simp add: merge_sql_parts_def)
  have "sink_after (load_upsert g (first_rec # others)) tbl
    = sink_after (map (\<lambda>rec. Execute (MergeInto ?m) (row_of (using_cols ?m) rec))
        (first_rec # others)) tbl"
    unfolding load_upsert_nonempty merge_sql_def u
    by (simp add: sink_after_append ensure_table_def) (simp add: sink_after_def)
  also have "\<dots> = fold (merge_into ?m) (map (bound_row (using_cols ?m)) (first_rec # others)) tbl"
    by (rule sink_after_merges)
  finally show ?thesis by (simp only: u)
qed

text \<open>
  Claim C8. Take any destination and any source in which every record has a non-null
  \<^verbatim>\<open>uuid\<close> entry in its flat form. Running the upsert load a second time on the result of
  the first run leaves the destination exactly as the first run left it: the same rows,
  in the same order, with the same values.
\<close>

theorem upsert_idempotent:
  assumes "\<forall>rec \<in> set ddb. dict_get (flatten_json rec [] ''_'') ''uuid'' \<noteq> SNull"
  shows "sink_after (load_upsert g ddb) (sink_after (load_upsert g ddb) tbl)
           = sink_after (load_upsert g ddb) tbl"
proof (cases ddb)
  case Nil
  then show ?thesis
    by (simp add: load_upsert_def scan_dynamodb_def ensure_table_def sink_after_def)
next
  case (Cons first_rec others)
  let ?c = "infer_columns first_rec"
  let ?m = "merge_sql_parts g ?c"
  from assms Cons have "dict_get (flatten_json first_rec [] ''_'') ''uuid'' \<noteq> SNull" by simp
  then have key_col: "''uuid'' \<in> set ?c"
    by (simp add: infer_columns_set dict_get_present)
  have k1: "on_col ?m \<notin> set (update_cols ?m)" by (simp add: merge_sql_parts_def)
  have k2: "on_col ?m \<in> set (insert_cols ?m)" using key_col by (simp add: merge_sql_parts_def)
  have sub: "set (update_cols ?m) \<subseteq> set (insert_cols ?m)"
    by (auto simp: merge_sql_parts_def)
  have keys: "\<forall>S \<in> set (map (bound_row ?c) ddb). S (on_col ?m) \<noteq> SNull"
  proof
    fix S assume "S \<in> set (map (bound_row ?c) ddb)"
    then obtain rec where r: "rec \<in> set ddb" "S = bound_row ?c rec" by auto
    have "S ''uuid'' = dict_get (flatten_json rec [] ''_'') ''uuid''"
      unfolding r(2) using key_col by (rule bound_row_value)
    with assms r(1) show "S (on_col ?m) \<noteq> SNull" by (simp add: merge_sql_parts_def)
  qed
  have "fold (merge_into ?m) (map (bound_row ?c) ddb)
          (fold (merge_into ?m) (map (bound_row ?c) ddb) tbl)
        = fold (merge_into ?m) (map (bound_row ?c) ddb) tbl"
    using k1 k2 sub keys by (rule merge_run_idempotent)
  then show ?thesis unfolding Cons by (simp only: sink_after_load_upsert)
qed

theorem upsert_idempotent_witness:
  "shown (sink_after (load_upsert (cfg 500) [item ''a'' 1, item ''b'' 2, item ''a'' 3])
            [stored ''b'' 0, stored ''z'' 9])
     = [(SStr ''b'', SNum 2), (SStr ''z'', SNum 9), (SStr ''a'', SNum 3)] \<and>
   sink_after (load_upsert (cfg 500) [item ''a'' 1, item ''b'' 2, item ''a'' 3])
     (sink_after (load_upsert (cfg 500) [item ''a'' 1, item ''b'' 2, item ''a'' 3])
        [stored ''b'' 0, stored ''z'' 9])
     = sink_after (load_upsert (cfg 500) [item ''a'' 1, item ''b'' 2, item ''a'' 3])
         [stored ''b'' 0, stored ''z'' 9]"
proof -
  have keys: "\<forall>rec \<in> set [item ''a'' 1, item ''b'' 2, item ''a'' 3].
      dict_get (flatten_json rec [] ''_'') ''uuid'' \<noteq> SNull"
    by (simp add: item_def new_key_def dict_update_def dict_setitem_def dict_get_def)
  have run: "shown (sink_after (load_upsert (cfg 500) [item ''a'' 1, item ''b'' 2, item ''a'' 3])
            [stored ''b'' 0, stored ''z'' 9])
     = [(SStr ''b'', SNum 2), (SStr ''z'', SNum 9), (SStr ''a'', SNum 3)]"
    by code_simp
  from run upsert_idempotent [OF keys, of "cfg 500" "[stored ''b'' 0, stored ''z'' 9]"]
  show ?thesis by (rule conjI)
qed

end
